theory Spec2Isabelle
  imports Main "HOL-Library.Char_ord" "HOL-Library.List_Lexorder" "HOL-Library.Multiset"
begin

section \<open>The App Engine backend of djangae: data model\<close>

text \<open>
  The development embeds \<^verbatim>\<open>djangae/db/backends/appengine/base.py\<close>. Python values
  that travel through filters and entities are dynamically typed; the model gives them one
  datatype (\<open>VKey kind id\<close> is a datastore \<^verbatim>\<open>Key\<close>). Exceptions are values of the type \<open>error\<close>; a function that can raise
  returns a sum whose left injection is the exception. A function keeps the name it has in
  the source, without the leading underscore of a private method (\<^verbatim>\<open>_apply_filter\<close>
  is \<open>apply_filter\<close>).
\<close>

datatype val = VNone | VBool bool | VInt int | VStr string | VList "val list" | VKey string int

datatype error =
    DatabaseError | IntegrityError | NotSupportedError
  | RuntimeError | AssertionError | AttributeError | IndexError | TypeError
  | FieldDoesNotExist
  | BadFilterError | BadValueError | BadArgumentError | OverflowError

text \<open>
  \<^verbatim>\<open>class IntegrityError(DatabaseError)\<close> and \<^verbatim>\<open>class NotSupportedError(DatabaseError)\<close>:
  an exception is a \<^verbatim>\<open>DatabaseError\<close> when its class is that class or one of its two subclasses.
\<close>

fun is_DatabaseError :: "error \<Rightarrow> bool" where
  "is_DatabaseError DatabaseError = True"
| "is_DatabaseError IntegrityError = True"
| "is_DatabaseError NotSupportedError = True"
| "is_DatabaseError _ = False"

text \<open>
  A field of a model, with the attributes the backend reads: \<^verbatim>\<open>name\<close>, \<^verbatim>\<open>column\<close>,
  \<^verbatim>\<open>primary_key\<close>, \<^verbatim>\<open>unique\<close>, the result of \<^verbatim>\<open>db_type(connection)\<close>, and whether
  \<^verbatim>\<open>rel\<close> is not \<^verbatim>\<open>None\<close>. A model is its \<^verbatim>\<open>_meta\<close>; its \<^verbatim>\<open>fields\<close> attribute is \<open>meta_fields\<close>
  (the record package reserves the name \<open>fields\<close>).
\<close>

record field =
  name :: string
  column :: string
  primary_key :: bool
  unique :: bool
  db_type :: string
  has_rel :: bool

record model =
  app_label :: string
  db_table :: string
  meta_fields :: "field list"
  unique_together :: "string list list"
  pk :: field

text \<open>\<^verbatim>\<open>model._meta.get_field(name)\<close> raises \<^verbatim>\<open>FieldDoesNotExist\<close> for an unknown name.\<close>

definition get_field :: "model \<Rightarrow> string \<Rightarrow> error + field" where
  "get_field m n =
     (case find (\<lambda>f. name f = n) (meta_fields m) of
        None \<Rightarrow> Inl FieldDoesNotExist
      | Some f \<Rightarrow> Inr f)"

subsection \<open>Unique-key fingerprints\<close>

text \<open>
  \<^verbatim>\<open>[ model._meta.get_field(y).column for y in x ]\<close>: the columns of one
  \<^verbatim>\<open>unique_together\<close> tuple, failing at the first unknown field name.
\<close>

fun columns_of :: "model \<Rightarrow> string list \<Rightarrow> error + string list" where
  "columns_of m [] = Inr []"
| "columns_of m (y # ys) =
     (case get_field m y of
        Inl e \<Rightarrow> Inl e
      | Inr f \<Rightarrow> (case columns_of m ys of
                    Inl e \<Rightarrow> Inl e
                  | Inr cs \<Rightarrow> Inr (column f # cs)))"

fun together_columns :: "model \<Rightarrow> string list list \<Rightarrow> error + string list list" where
  "together_columns m [] = Inr []"
| "together_columns m (x # xs) =
     (case columns_of m x of
        Inl e \<Rightarrow> Inl e
      | Inr cs \<Rightarrow> (case together_columns m xs of
                     Inl e \<Rightarrow> Inl e
                   | Inr css \<Rightarrow> Inr (cs # css)))"

text \<open>
  \<^verbatim>\<open>get_uniques_from_model\<close>: the \<^verbatim>\<open>unique_together\<close> tuples first, then
  \<^verbatim>\<open>uniques.extend([[x.column] for x in model._meta.fields if x.unique])\<close>.
\<close>

definition get_uniques_from_model :: "model \<Rightarrow> error + string list list" where
  "get_uniques_from_model m =
     (case together_columns m (unique_together m) of
        Inl e \<Rightarrow> Inl e
      | Inr uniques \<Rightarrow> Inr (uniques @ map (\<lambda>x. [column x]) (filter unique (meta_fields m))))"

text \<open>
  \<^verbatim>\<open>'|'.join(parts)\<close>.
\<close>

fun join :: "string \<Rightarrow> string list \<Rightarrow> string" where
  "join sep [] = []"
| "join sep [p] = p"
| "join sep (p # q # ps) = p @ sep @ join sep (q # ps)"

text \<open>
  \<^verbatim>\<open>generate_unique_key\<close>. \<^verbatim>\<open>sorted(..., key=lambda x: x[0])\<close> is a stable sort on
  the field name, as \<open>sort_key fst\<close> is; field names are byte strings, ordered
  lexicographically by character code. The conversion \<^verbatim>\<open>%s\<close> of a value is the host
  language's \<^verbatim>\<open>str\<close>; it is the parameter \<open>to_str\<close>.
\<close>

definition generate_unique_key ::
  "('v \<Rightarrow> string) \<Rightarrow> model \<Rightarrow> (string \<times> 'v) list \<Rightarrow> string" where
  "generate_unique_key to_str m fields_and_values =
     (let fields_and_values = sort_key fst fields_and_values;
          key = app_label m @ ''.'' @ db_table m @ ''|''
      in key @ join ''|'' (map (\<lambda>(field, value). field @ '':'' @ to_str value) fields_and_values))"

subsection \<open>\<^verbatim>\<open>Cursor.execute\<close>\<close>

text \<open>
  \<^verbatim>\<open>def execute(self, sql, *params): raise RuntimeError(...)\<close>: no state is read or
  written, so the model is a function of the arguments alone.
\<close>

definition execute :: "string \<Rightarrow> val list \<Rightarrow> error + unit" where
  "execute sql params = Inl RuntimeError"

section \<open>The cursor\<close>

subsection \<open>Native queries and the object store\<close>

text \<open>
  \<^verbatim>\<open>datastore.Query\<close> of the App Engine SDK is a dictionary class
  (\<^verbatim>\<open>class Query(dict)\<close>): its items are the filters, keyed by
  \<^verbatim>\<open>"<column> <op>"\<close>; the source reads and writes them with \<^verbatim>\<open>update\<close> and item
  assignment. Next to the items an object has its kind and the projection of its query
  options; \<^verbatim>\<open>datastore.MultiQuery\<close> objects hold the list of the queries they bind
  (\<open>bound_queries\<close> is \<open>None\<close> for a plain query).

  Query objects are mutated in place and are reachable under several names
  (\<^verbatim>\<open>self.queries\<close>, \<^verbatim>\<open>query_to_update\<close>, the loop variable \<^verbatim>\<open>query\<close>), so they
  live in an object store: \<open>heap\<close> is the list of all objects created so far and a
  reference is an index into it.
\<close>

record dsquery =
  kind :: string
  filters :: "(string \<times> val) list"
  projection :: "string list option"
  bound_queries :: "nat list option"

text \<open>Item assignment \<^verbatim>\<open>d[k] = v\<close> and \<^verbatim>\<open>d.update(other)\<close> of a dictionary.\<close>

fun setitem :: "string \<Rightarrow> val \<Rightarrow> (string \<times> val) list \<Rightarrow> (string \<times> val) list" where
  "setitem k v [] = [(k, v)]"
| "setitem k v ((k', v') # d) = (if k' = k then (k', v) # d else (k', v') # setitem k v d)"

definition dict_update :: "(string \<times> val) list \<Rightarrow> (string \<times> val) list \<Rightarrow> (string \<times> val) list" where
  "dict_update d other = fold (\<lambda>(k, v). setitem k v) other d"

text \<open>
  \<^verbatim>\<open>Query.__setitem__\<close> of the SDK checks the value and the filter before it stores the
  item, and raises where a check fails:
  \<^item> \<^verbatim>\<open>ValidateProperty\<close>: the value, or every element of a list value, must be of a
    supported type (a list inside a list is not); an empty list is refused
    (\<^verbatim>\<open>BadValueError\<close>); an integer must fit in 64 bits (\<^verbatim>\<open>OverflowError\<close>); a string
    must not be longer than 1500 bytes (\<^verbatim>\<open>BadValueError\<close>);
  \<^item> \<^verbatim>\<open>_CheckFilter\<close>: the filter string is a property name and an operator; a query
    has inequality filters (\<^verbatim>\<open><\<close>, \<^verbatim>\<open><=\<close>, \<^verbatim>\<open>>\<close>, \<^verbatim>\<open>>=\<close>) on one property only, the
    property of the first such filter it was given (\<^verbatim>\<open>BadFilterError\<close>); and the value of
    a filter on \<^verbatim>\<open>__key__\<close>, or every element of it, must be a \<^verbatim>\<open>Key\<close>
    (\<^verbatim>\<open>BadFilterError\<close>).

  The filter strings of the source are \<^verbatim>\<open>"%s %s" % (column, op)\<close>; the property is the part
  before the blank and the operator the part after it.
\<close>

definition MAX_STRING_LENGTH :: nat where
  "MAX_STRING_LENGTH = 1500"

fun validate_value :: "val \<Rightarrow> error option" where
  "validate_value (VInt i) =
     (if i > 9223372036854775807 \<or> i < - 9223372036854775808 then Some OverflowError else None)"
| "validate_value (VStr s) = (if length s > MAX_STRING_LENGTH then Some BadValueError else None)"
| "validate_value (VList vs) = Some BadValueError"
| "validate_value _ = None"

definition values_of :: "val \<Rightarrow> val list" where
  "values_of v = (case v of VList vs \<Rightarrow> vs | _ \<Rightarrow> [v])"

fun first_error :: "error option list \<Rightarrow> error option" where
  "first_error [] = None"
| "first_error (None # rest) = first_error rest"
| "first_error (Some e # rest) = Some e"

definition ValidateProperty :: "val \<Rightarrow> error option" where
  "ValidateProperty v =
     (if values_of v = [] then Some BadValueError
      else first_error (map validate_value (values_of v)))"

definition INEQUALITY_OPERATORS :: "string list" where
  "INEQUALITY_OPERATORS = [''<'', ''<='', ''>'', ''>='']"

definition filter_property :: "string \<Rightarrow> string" where
  "filter_property k = takeWhile (\<lambda>ch. ch \<noteq> CHR '' '') k"

definition filter_operator :: "string \<Rightarrow> string" where
  "filter_operator k = drop 1 (dropWhile (\<lambda>ch. ch \<noteq> CHR '' '') k)"

text \<open>
  The property of the inequality filters of a query (the attribute \<^verbatim>\<open>__inequality_prop\<close>
  of the SDK): items are never deleted, so it is the property of the first inequality
  filter among the items.
\<close>

definition inequality_prop :: "(string \<times> val) list \<Rightarrow> string option" where
  "inequality_prop d =
     (case filter (\<lambda>(k, v). filter_operator k \<in> set INEQUALITY_OPERATORS) d of
        [] \<Rightarrow> None
      | (k, v) # _ \<Rightarrow> Some (filter_property k))"

fun is_Key :: "val \<Rightarrow> bool" where
  "is_Key (VKey knd i) = True"
| "is_Key _ = False"

definition CheckFilter :: "(string \<times> val) list \<Rightarrow> string \<Rightarrow> val \<Rightarrow> error option" where
  "CheckFilter d k v =
     (if filter_operator k \<in> set INEQUALITY_OPERATORS
         \<and> (case inequality_prop d of None \<Rightarrow> False | Some p \<Rightarrow> p \<noteq> filter_property k)
      then Some BadFilterError
      else if filter_property k = ''__key__'' \<and> \<not> list_all is_Key (values_of v)
      then Some BadFilterError
      else None)"

text \<open>
  The truth value of a query object in \<^verbatim>\<open>query_to_update or self.query\<close> is that of a
  dictionary (the class defines no truth value of its own): false when it has no item.
\<close>

definition truthy_query :: "dsquery \<Rightarrow> bool" where
  "truthy_query q = (filters q \<noteq> [])"

text \<open>
  An entity of the datastore: the \<^verbatim>\<open>id_or_name()\<close> of its key and its properties. The
  results a cursor holds are either the iterator that \<^verbatim>\<open>Query.Run\<close> returns (an object,
  true in a boolean context, that a \<^verbatim>\<open>for\<close> loop consumes) or the one-element list
  built from a cache hit.
\<close>

record entity =
  key_id_or_name :: val
  properties :: "(string \<times> val) list"

datatype results = Iterator "entity list" | PyList "entity list"

type_synonym token = string

text \<open>
  What the cursor does to the world outside: log lines, datastore round-trips and cache
  probes, recorded in the order they happen.
\<close>

datatype event =
    LogError string
  | DatastoreRun "dsquery list" "int option" "token option"
  | CacheGet string

text \<open>
  The collaborators the cursor calls and the source does not define: the datastore
  (\<^verbatim>\<open>Run\<close> with its \<^verbatim>\<open>limit\<close> and \<^verbatim>\<open>start\<close> options, on the list of native queries
  the query object stands for, and \<^verbatim>\<open>GetCursor\<close> after that run), the cache
  (\<^verbatim>\<open>cache.get\<close>) and the host language's \<^verbatim>\<open>str\<close>.
\<close>

record env =
  ds_run :: "dsquery list \<Rightarrow> int option \<Rightarrow> token option \<Rightarrow> entity list"
  ds_get_cursor :: "dsquery list \<Rightarrow> int option \<Rightarrow> token option \<Rightarrow> token option"
  cache_get :: "string \<Rightarrow> entity option"
  py_str :: "val \<Rightarrow> string"

text \<open>
  The attributes of \<^verbatim>\<open>Cursor\<close> (without \<^verbatim>\<open>connection\<close>, which is only handed to
  Django's hooks), the object store and the trace of events.
\<close>

record cursor =
  results :: "results option"
  queries :: "nat list"
  start_cursor :: "token option"
  returned_ids :: "val list"
  queried_fields :: "string list"
  query_done :: bool
  all_filters :: "(string \<times> string \<times> val) list"
  last_query_model :: "model option"
  heap :: "dsquery list"
  trace :: "event list"

text \<open>\<^verbatim>\<open>Cursor.__init__\<close>.\<close>

definition Cursor_init :: cursor where
  "Cursor_init = \<lparr>results = None, queries = [], start_cursor = None, returned_ids = [],
                  queried_fields = [], query_done = True, all_filters = [],
                  last_query_model = None, heap = [], trace = []\<rparr>"

text \<open>The property \<^verbatim>\<open>query\<close>: \<^verbatim>\<open>self.queries[0]\<close>, and its setter.\<close>

definition query_get :: "cursor \<Rightarrow> error + nat" where
  "query_get c = (case queries c of [] \<Rightarrow> Inl IndexError | a # _ \<Rightarrow> Inr a)"

definition query_set :: "nat \<Rightarrow> cursor \<Rightarrow> cursor" where
  "query_set a c = (if queries c \<noteq> [] then c\<lparr>queries := (queries c)[0 := a]\<rparr>
                    else c\<lparr>queries := [a]\<rparr>)"

text \<open>
  \<^verbatim>\<open>datastore.Query(kind, projection=p)\<close> and \<^verbatim>\<open>datastore.MultiQuery(queries, [])\<close>
  create an object; \<^verbatim>\<open>dst.update(src)\<close> and \<^verbatim>\<open>q[k] = v\<close> change one.
  A multi-query binds at most 30 queries (\<^verbatim>\<open>MAX_ALLOWABLE_QUERIES\<close>); with more,
  \<^verbatim>\<open>MultiQuery\<close> raises \<^verbatim>\<open>BadArgumentError\<close>.

  \<^verbatim>\<open>dst.update(src)\<close> assigns every item of \<^verbatim>\<open>src\<close> to \<^verbatim>\<open>dst\<close> through
  \<^verbatim>\<open>__setitem__\<close>. Both calls in the source are on a \<^verbatim>\<open>dst\<close> that has just been
  created, and the items of \<^verbatim>\<open>src\<close> have passed the checks when they were assigned
  (the checks on a value do not depend on the query, and the inequality filters of
  \<^verbatim>\<open>src\<close> are on one property), so these assignments pass them again: \<open>query_update\<close>
  copies the items.
\<close>

definition Query_new :: "string \<Rightarrow> string list option \<Rightarrow> cursor \<Rightarrow> nat \<times> cursor" where
  "Query_new knd proj c =
     (length (heap c),
      c\<lparr>heap := heap c @ [\<lparr>kind = knd, filters = [], projection = proj, bound_queries = None\<rparr>]\<rparr>)"

definition MAX_ALLOWABLE_QUERIES :: nat where
  "MAX_ALLOWABLE_QUERIES = 30"

definition MultiQuery_new :: "nat list \<Rightarrow> cursor \<Rightarrow> error + (nat \<times> cursor)" where
  "MultiQuery_new qs c =
     (if length qs > MAX_ALLOWABLE_QUERIES then Inl BadArgumentError
      else Inr (length (heap c),
                c\<lparr>heap := heap c @ [\<lparr>kind = [], filters = [], projection = None,
                                        bound_queries = Some qs\<rparr>]\<rparr>))"

definition query_update :: "nat \<Rightarrow> nat \<Rightarrow> cursor \<Rightarrow> cursor" where
  "query_update dst src c =
     c\<lparr>heap := (heap c)[dst := (heap c ! dst)\<lparr>filters :=
          dict_update (filters (heap c ! dst)) (filters (heap c ! src))\<rparr>]\<rparr>"

definition query_setitem :: "nat \<Rightarrow> string \<Rightarrow> val \<Rightarrow> cursor \<Rightarrow> error + cursor" where
  "query_setitem a k v c =
     (case ValidateProperty v of
        Some e \<Rightarrow> Inl e
      | None \<Rightarrow>
          (case CheckFilter (filters (heap c ! a)) k v of
             Some e \<Rightarrow> Inl e
           | None \<Rightarrow>
               Inr (c\<lparr>heap := (heap c)[a := (heap c ! a)\<lparr>filters :=
                      setitem k v (filters (heap c ! a))\<rparr>]\<rparr>)))"

subsection \<open>Projection state\<close>

text \<open>
  The loop of \<^verbatim>\<open>_update_projection_state\<close> that replaces every pending query by a new
  query of the same kind, without projection, holding the same filters.
\<close>

fun rebuild_queries :: "nat list \<Rightarrow> nat list \<Rightarrow> cursor \<Rightarrow> nat list \<times> cursor" where
  "rebuild_queries [] new_queries c = (new_queries, c)"
| "rebuild_queries (query # rest) new_queries c =
     (let (new_query, c1) = Query_new (kind (heap c ! query)) None c;
          c2 = query_update new_query query c1
      in rebuild_queries rest (new_queries @ [new_query]) c2)"

text \<open>
  \<^verbatim>\<open>_update_projection_state\<close>. \<^verbatim>\<open>not projected_fields\<close> holds for \<^verbatim>\<open>None\<close> and for
  an empty sequence.
\<close>

definition update_projection_state :: "field \<Rightarrow> string \<Rightarrow> cursor \<Rightarrow> error + cursor" where
  "update_projection_state field lookup_type c =
     (case query_get c of
        Inl e \<Rightarrow> Inl e
      | Inr q \<Rightarrow>
          (let projected_fields = projection (heap c ! q) in
           if projected_fields = None \<or> projected_fields = Some []
              \<or> column field \<notin> set (case projected_fields of None \<Rightarrow> [] | Some p \<Rightarrow> p)
           then Inr c
           else if db_type field \<in> {''text'', ''bytes''} \<or> lookup_type \<in> {''exact'', ''in''}
           then (let (new_queries, c1) = rebuild_queries (queries c) [] c
                 in Inr (c1\<lparr>queries := new_queries\<rparr>))
           else Inr c))"

subsection \<open>Applying one filter\<close>

definition OPERATORS_MAP :: "(string \<times> string option) list" where
  "OPERATORS_MAP =
     [(''exact'', Some ''=''), (''gt'', Some ''>''), (''gte'', Some ''>=''),
      (''lt'', Some ''<''), (''lte'', Some ''<=''),
      (''isnull'', None), (''in'', None), (''startswith'', None),
      (''range'', None), (''year'', None)]"

text \<open>
  The arguments \<^verbatim>\<open>negated\<close> and \<^verbatim>\<open>all_filters\<close> of \<^verbatim>\<open>_apply_filters\<close> hold either a
  boolean or the list object \<^verbatim>\<open>self.all_filters\<close> (the recursive call passes them in the
  other order). \<^verbatim>\<open>not x\<close> and the truth value of a list: a list is true when it is not
  empty.
\<close>

datatype dyn = DBool bool | DList

fun truthy :: "cursor \<Rightarrow> dyn \<Rightarrow> bool" where
  "truthy c (DBool b) = b"
| "truthy c DList = (all_filters c \<noteq> [])"

definition py_not :: "cursor \<Rightarrow> dyn \<Rightarrow> dyn" where
  "py_not c d = DBool (\<not> truthy c d)"

text \<open>\<^verbatim>\<open>for v in value\<close>: a list gives its elements, a string its characters.\<close>

fun py_iter :: "val \<Rightarrow> error + val list" where
  "py_iter (VList vs) = Inr vs"
| "py_iter (VStr s) = Inr (map (\<lambda>ch. VStr [ch]) s)"
| "py_iter _ = Inl TypeError"

text \<open>
  \<^verbatim>\<open>_apply_filter\<close>, with the two loops of its \<^verbatim>\<open>in\<close> branch: \<open>expand_queries\<close> is
  \<^verbatim>\<open>for query in self.queries\<close> and \<open>expand_values\<close> is \<^verbatim>\<open>for v in value\<close>; both
  carry the list \<^verbatim>\<open>new_queries\<close>. The result is the returned triple (or \<^verbatim>\<open>None\<close>)
  and the new state. When \<^verbatim>\<open>op is None\<close> for a lookup other than \<^verbatim>\<open>in\<close>, the code
  stops in the debugger and then fails \<^verbatim>\<open>assert(op is not None)\<close>.
\<close>

function apply_filter ::
    "model \<Rightarrow> field \<Rightarrow> string \<Rightarrow> dyn \<Rightarrow> val \<Rightarrow> nat option \<Rightarrow> cursor
       \<Rightarrow> error + ((string \<times> string \<times> val) option \<times> cursor)"
  and expand_queries ::
    "model \<Rightarrow> field \<Rightarrow> dyn \<Rightarrow> val \<Rightarrow> nat list \<Rightarrow> nat list \<Rightarrow> cursor \<Rightarrow> error + (nat list \<times> cursor)"
  and expand_values ::
    "model \<Rightarrow> field \<Rightarrow> dyn \<Rightarrow> nat \<Rightarrow> val list \<Rightarrow> nat list \<Rightarrow> cursor \<Rightarrow> error + (nat list \<times> cursor)"
where
  "apply_filter m field lookup_type negated value query_to_update c =
     (case (case query_to_update of
              None \<Rightarrow> query_get c
            | Some q \<Rightarrow> if truthy_query (heap c ! q) then Inr q else query_get c) of
        Inl e \<Rightarrow> Inl e
      | Inr query_to_update \<Rightarrow>
          (case map_of OPERATORS_MAP lookup_type of
             None \<Rightarrow> Inl DatabaseError
           | Some op \<Rightarrow>
               (let col = (if primary_key field then ''__key__'' else column field) in
                case update_projection_state field lookup_type c of
                  Inl e \<Rightarrow> Inl e
                | Inr c1 \<Rightarrow>
                    (case op of
                       None \<Rightarrow>
                         if lookup_type = ''in''
                         then (case expand_queries m field negated value (queries c1) [] c1 of
                                 Inl e \<Rightarrow> Inl e
                               | Inr (new_queries, c2) \<Rightarrow> Inr (None, c2\<lparr>queries := new_queries\<rparr>))
                         else Inl AssertionError
                     | Some op \<Rightarrow>
                         (case query_setitem query_to_update (col @ '' '' @ op) value c1 of
                            Inl e \<Rightarrow> Inl e
                          | Inr c2 \<Rightarrow> Inr (Some (col, op, value), c2))))))"
| "expand_queries m field negated value [] new_queries c = Inr (new_queries, c)"
| "expand_queries m field negated value (query # rest) new_queries c =
     (case py_iter value of
        Inl e \<Rightarrow> Inl e
      | Inr vs \<Rightarrow>
          (case expand_values m field negated query vs new_queries c of
             Inl e \<Rightarrow> Inl e
           | Inr (new_queries', c') \<Rightarrow> expand_queries m field negated value rest new_queries' c'))"
| "expand_values m field negated query [] new_queries c = Inr (new_queries, c)"
| "expand_values m field negated query (v # vs) new_queries c =
     (let (new_query, c1) = Query_new (db_table m) None c;
          c2 = query_update new_query query c1
      in case apply_filter m field ''exact'' negated v (Some new_query) c2 of
           Inl e \<Rightarrow> Inl e
         | Inr (_, c3) \<Rightarrow> expand_values m field negated query vs (new_queries @ [new_query]) c3)"
  by pat_completeness auto
termination
  by (relation "measures [(\<lambda>x. case x of
          Inl (m, field, lookup_type, negated, value, q, c) \<Rightarrow> (if lookup_type = ''in'' then 3 else 0)
        | Inr (Inl (m, field, negated, value, qs, new_queries, c)) \<Rightarrow> 2
        | Inr (Inr (m, field, negated, query, vs, new_queries, c)) \<Rightarrow> 1),
      (\<lambda>x. case x of
          Inl _ \<Rightarrow> 0
        | Inr (Inl (m, field, negated, value, qs, new_queries, c)) \<Rightarrow> length qs
        | Inr (Inr (m, field, negated, query, vs, new_queries, c)) \<Rightarrow> length vs)]")
     auto

subsection \<open>The predicate tree\<close>

text \<open>
  A leaf of the tree is the tuple \<^verbatim>\<open>(constraint, lookup_type, annotation, value)\<close>.
  \<^verbatim>\<open>_parse_child\<close> first calls Django's \<^verbatim>\<open>constraint.process(lookup_type, value,
  connection)\<close>, which returns \<^verbatim>\<open>((alias, column, db_type), value)\<close>; a leaf of the model
  carries \<^verbatim>\<open>constraint.field\<close>, the lookup type, the annotation, and what that call
  returned: the alias (or \<^verbatim>\<open>None\<close>), the column and the processed value.
\<close>

record leaf =
  constraint_field :: field
  lookup_type :: string
  annotation :: val
  packed_alias :: "string option"
  packed_column :: string
  processed_value :: val

datatype connector = AND | OR

datatype wnode = Node (connector: connector) (negated: bool) (children: "child list")
  and child = Leaf leaf | Sub wnode

text \<open>Slices \<^verbatim>\<open>v[a:]\<close> and \<^verbatim>\<open>v[:-b]\<close> (here \<open>a, b \<le> 1\<close>) of a string or a list.\<close>

fun py_slice :: "nat \<Rightarrow> nat \<Rightarrow> val \<Rightarrow> error + val" where
  "py_slice a b (VStr s) = Inr (VStr (drop a (take (length s - b) s)))"
| "py_slice a b (VList vs) = Inr (VList (drop a (take (length vs - b) vs)))"
| "py_slice a b _ = Inl TypeError"

text \<open>
  \<^verbatim>\<open>normalize_value\<close>, the function nested in \<^verbatim>\<open>_parse_child\<close>. Its first test reads
  the enclosing \<^verbatim>\<open>value\<close> and its \<^verbatim>\<open>isnull\<close> test the enclosing \<^verbatim>\<open>lookup_type\<close>,
  which are the values it is called with.
\<close>

definition normalize_value :: "val \<Rightarrow> string \<Rightarrow> val \<Rightarrow> error + val" where
  "normalize_value value lt ann =
     (case (case value of
              VList vs \<Rightarrow>
                if lt \<notin> {''in'', ''range'', ''year''}
                then (if length vs > 1 then Inl DatabaseError
                      else if lt = ''isnull'' then Inr ann
                      else (case vs of [] \<Rightarrow> Inl IndexError | v # _ \<Rightarrow> Inr v))
                else Inr value
            | _ \<Rightarrow> Inr value) of
        Inl e \<Rightarrow> Inl e
      | Inr v \<Rightarrow>
          if lt \<in> {''startswith'', ''istartswith''} then py_slice 0 1 v
          else if lt \<in> {''endswith'', ''iendswith''} then py_slice 1 0 v
          else if lt \<in> {''contains'', ''icontains''} then py_slice 1 1 v
          else Inr v)"

text \<open>
  \<^verbatim>\<open>_parse_child\<close>. \<^verbatim>\<open>if alias\<close> holds for a string that is not empty;
  \<^verbatim>\<open>column[:-3]\<close> drops the last three characters.
\<close>

definition parse_child :: "model \<Rightarrow> leaf \<Rightarrow> error + (field \<times> string \<times> val)" where
  "parse_child m child =
     (let field = constraint_field child in
      if (case packed_alias child of None \<Rightarrow> False | Some alias \<Rightarrow> alias \<noteq> [] \<and> alias \<noteq> db_table m)
      then Inl DatabaseError
      else
        (case (if packed_column child \<noteq> column field
               then (if \<not> primary_key field then Inl AssertionError
                     else (case get_field m (take (length (packed_column child) - 3) (packed_column child)) of
                             Inl e \<Rightarrow> Inl e
                           | Inr f \<Rightarrow> if \<not> has_rel f then Inl AssertionError else Inr f))
               else Inr field) of
           Inl e \<Rightarrow> Inl e
         | Inr field \<Rightarrow>
             (case normalize_value (processed_value child) (lookup_type child) (annotation child) of
                Inl e \<Rightarrow> Inl e
              | Inr v \<Rightarrow> Inr (field, lookup_type child, v))))"

text \<open>
  \<^verbatim>\<open>_apply_filters(self, model, where, all_filters, negated=False)\<close>, with
  \<open>apply_children\<close> for its loop over \<^verbatim>\<open>where.children\<close>. The recursive call is
  \<^verbatim>\<open>self._apply_filters(model, child, negated, all_filters)\<close>: the callee's
  \<^verbatim>\<open>all_filters\<close> is the caller's \<^verbatim>\<open>negated\<close> and the other way round.
  \<^verbatim>\<open>all_filters.append\<close> on a boolean raises \<^verbatim>\<open>AttributeError\<close>. The last statement
  of the source only assigns the local \<^verbatim>\<open>negated\<close>.
\<close>

fun apply_filters :: "model \<Rightarrow> wnode \<Rightarrow> dyn \<Rightarrow> dyn \<Rightarrow> cursor \<Rightarrow> error + cursor"
  and apply_children :: "model \<Rightarrow> child list \<Rightarrow> dyn \<Rightarrow> dyn \<Rightarrow> cursor \<Rightarrow> error + cursor"
where
  "apply_filters m (Node conn neg cs) all_filters_arg negated_arg c =
     (let negated_arg = (if neg then py_not c negated_arg else negated_arg) in
      if \<not> truthy c negated_arg \<and> conn \<noteq> AND then Inl DatabaseError
      else apply_children m cs all_filters_arg negated_arg c)"
| "apply_children m [] all_filters_arg negated_arg c = Inr c"
| "apply_children m (Sub w # rest) all_filters_arg negated_arg c =
     (case apply_filters m w negated_arg all_filters_arg c of
        Inl e \<Rightarrow> Inl e
      | Inr c' \<Rightarrow> apply_children m rest all_filters_arg negated_arg c')"
| "apply_children m (Leaf l # rest) all_filters_arg negated_arg c =
     (case parse_child m l of
        Inl e \<Rightarrow> Inl e
      | Inr (field, lt, value) \<Rightarrow>
          (case apply_filter m field lt negated_arg value None c of
             Inl e \<Rightarrow> Inl e
           | Inr (None, c') \<Rightarrow> apply_children m rest all_filters_arg negated_arg c'
           | Inr (Some applied_filter, c') \<Rightarrow>
               (case all_filters_arg of
                  DBool _ \<Rightarrow> Inl AttributeError
                | DList \<Rightarrow>
                    apply_children m rest all_filters_arg negated_arg
                      (c'\<lparr>all_filters := all_filters c' @ [applied_filter]\<rparr>))))"

subsection \<open>\<^verbatim>\<open>execute_appengine_query\<close>\<close>

text \<open>
  The branch for a query that is not an \<^verbatim>\<open>InsertQuery\<close>. Of the ORM query it reads the
  selected columns (\<^verbatim>\<open>[x.col[1] for x in query.select]\<close>) and the tree \<^verbatim>\<open>query.where\<close>.
\<close>

record select_query =
  select_columns :: "string list"
  where_tree :: wnode

text \<open>
  \<^verbatim>\<open>xs[xs.index(x)] = y\<close> inside \<^verbatim>\<open>try ... except ValueError: pass\<close>.
\<close>

fun replace_first :: "string \<Rightarrow> string \<Rightarrow> string list \<Rightarrow> string list" where
  "replace_first x y [] = []"
| "replace_first x y (z # zs) = (if z = x then y # zs else z # replace_first x y zs)"

text \<open>
  When columns are selected, \<^verbatim>\<open>projection\<close> and \<^verbatim>\<open>self.queried_fields\<close> are one list
  object, so the projection handed to \<^verbatim>\<open>datastore.Query\<close> already has \<^verbatim>\<open>__key__\<close> in
  place of the primary key's name. An exception of \<^verbatim>\<open>_apply_filters\<close> leaves the
  function; the result is then the exception alone. \<open>wrap_queries\<close> is the statement
  \<^verbatim>\<open>try: self.queries[1]; self.queries = [ datastore.MultiQuery(self.queries, []) ]
  except IndexError: pass\<close>: \<^verbatim>\<open>self.queries[1]\<close> raises \<^verbatim>\<open>IndexError\<close> unless there are
  two queries or more.
\<close>

definition wrap_queries :: "cursor \<Rightarrow> error + cursor" where
  "wrap_queries c = (if length (queries c) > 1
                     then (case MultiQuery_new (queries c) c of
                             Inl e \<Rightarrow> Inl e
                           | Inr (mq, c') \<Rightarrow> Inr (c'\<lparr>queries := [mq]\<rparr>))
                     else Inr c)"

definition execute_appengine_query :: "model \<Rightarrow> select_query \<Rightarrow> cursor \<Rightarrow> error + cursor" where
  "execute_appengine_query m query c =
     (let selected = select_columns query;
          fields0 = (if selected \<noteq> [] then selected else map column (meta_fields m));
          fields1 = replace_first (name (pk m)) ''__key__'' fields0;
          proj = (if selected \<noteq> [] then Some fields1 else None);
          c1 = c\<lparr>queried_fields := fields1\<rparr>;
          (q, c2) = Query_new (db_table m) proj c1;
          c3 = query_set q c2;
          c4 = c3\<lparr>all_filters := []\<rparr>
      in case apply_filters m (where_tree query) DList (DBool False) c4 of
           Inl e \<Rightarrow> Inl e
         | Inr c5 \<Rightarrow>
             (case wrap_queries c5 of
                Inl e \<Rightarrow> Inl e
              | Inr c6 \<Rightarrow> Inr (c6\<lparr>last_query_model := Some m, query_done := False\<rparr>)))"

subsection \<open>\<^verbatim>\<open>fetchmany\<close>\<close>

definition log_error :: "string \<Rightarrow> cursor \<Rightarrow> cursor" where
  "log_error msg c = c\<lparr>trace := trace c @ [LogError msg]\<rparr>"

text \<open>
  \<^verbatim>\<open>get_entity_from_cache\<close>: one cache probe, and a log line when the entity is true
  (a dictionary with at least one item).
\<close>

definition get_entity_from_cache :: "env \<Rightarrow> string \<Rightarrow> cursor \<Rightarrow> entity option \<times> cursor" where
  "get_entity_from_cache env key c =
     (let entity = cache_get env key;
          c1 = c\<lparr>trace := trace c @ [CacheGet key]\<rparr>
      in case entity of
           None \<Rightarrow> (None, c1)
         | Some e \<Rightarrow> (Some e, if properties e \<noteq> []
                               then log_error (''Got entity from cache with key '' @ key) c1
                               else c1))"

text \<open>
  The inner loop over the fields of one unique combination: \<open>None\<close> when it ends by
  \<^verbatim>\<open>break\<close>, the collected \<^verbatim>\<open>final_key\<close> when it runs into its \<^verbatim>\<open>else\<close>.
\<close>

fun final_key :: "(string \<Rightarrow> val option) \<Rightarrow> string list \<Rightarrow> (string \<times> val) list
                    \<Rightarrow> (string \<times> val) list option" where
  "final_key lookup [] acc = Some acc"
| "final_key lookup (field # rest) acc =
     (case lookup field of
        Some v \<Rightarrow> final_key lookup rest (acc @ [(field, v)])
      | None \<Rightarrow> None)"

text \<open>
  The loop over the unique combinations. It does not stop at a hit: every combination that
  the lookup covers is probed, and the last probe decides \<^verbatim>\<open>entity_from_cache\<close>.
\<close>

fun probe_uniques :: "env \<Rightarrow> model \<Rightarrow> (string \<Rightarrow> val option) \<Rightarrow> string list list
                        \<Rightarrow> entity option \<Rightarrow> cursor \<Rightarrow> entity option \<times> cursor" where
  "probe_uniques env m lookup [] entity_from_cache c = (entity_from_cache, c)"
| "probe_uniques env m lookup (fs # rest) entity_from_cache c =
     (case final_key lookup fs [] of
        None \<Rightarrow> probe_uniques env m lookup rest entity_from_cache c
      | Some k \<Rightarrow>
          (let (e, c') = get_entity_from_cache env (generate_unique_key (py_str env) m k) c
           in probe_uniques env m lookup rest e c'))"

text \<open>
  \<^verbatim>\<open>lookup = { x[0]:x[2] for x in exact_filters }\<close>: of two filters on one column the
  later one stays.
\<close>

definition exact_lookup :: "(string \<times> string \<times> val) list \<Rightarrow> string \<Rightarrow> val option" where
  "exact_lookup fs =
     map_of (rev (map (\<lambda>x. (fst x, snd (snd x))) (filter (\<lambda>x. fst (snd x) = ''='') fs)))"

text \<open>The native queries a query object stands for.\<close>

definition native_queries :: "cursor \<Rightarrow> nat \<Rightarrow> dsquery list" where
  "native_queries c q =
     (case bound_queries (heap c ! q) of
        None \<Rightarrow> [heap c ! q]
      | Some qs \<Rightarrow> map (\<lambda>a. heap c ! a) qs)"

text \<open>One row per entity: the columns of \<^verbatim>\<open>self.queried_fields\<close>, in that order.\<close>

definition row_of :: "string list \<Rightarrow> entity \<Rightarrow> val list" where
  "row_of cols e =
     map (\<lambda>col. if col = ''__key__'' then key_id_or_name e
                 else (case map_of (properties e) col of None \<Rightarrow> VNone | Some v \<Rightarrow> v)) cols"

text \<open>
  \<^verbatim>\<open>for entity in self.results\<close>: the entities the loop sees and the object afterwards
  (an iterator is used up, a list is not).
\<close>

fun iterate :: "results \<Rightarrow> entity list \<times> results" where
  "iterate (Iterator es) = (es, Iterator [])"
| "iterate (PyList es) = (es, PyList es)"

fun results_truthy :: "results \<Rightarrow> bool" where
  "results_truthy (Iterator es) = True"
| "results_truthy (PyList es) = (es \<noteq> [])"

text \<open>
  The part of \<^verbatim>\<open>fetchmany\<close> under \<^verbatim>\<open>if self.results is None\<close>.
  \<^verbatim>\<open>Database.Error\<close> is \<^verbatim>\<open>DatabaseError\<close>.
\<close>

definition start_fetch :: "env \<Rightarrow> int \<Rightarrow> cursor \<Rightarrow> error + cursor" where
  "start_fetch env size' c =
     (case queries c of
        [] \<Rightarrow> Inl DatabaseError
      | q # _ \<Rightarrow>
          if bound_queries (heap c ! q) \<noteq> None
          then Inr (c\<lparr>results := Some (Iterator (ds_run env (native_queries c q) None None)),
                      query_done := True,
                      trace := trace c @ [DatastoreRun (native_queries c q) None None]\<rparr>)
          else
            (case (case last_query_model c of
                     Some m \<Rightarrow>
                       if all_filters c \<noteq> []
                       then (case get_uniques_from_model m of
                               Inl e \<Rightarrow> Inl e
                             | Inr unique_combinations \<Rightarrow>
                                 Inr (probe_uniques env m (exact_lookup (all_filters c))
                                        unique_combinations None c))
                       else Inr (None, c)
                   | None \<Rightarrow> Inr (None, c)) of
               Inl e \<Rightarrow> Inl e
             | Inr (None, c1) \<Rightarrow>
                 (let rs = Iterator (ds_run env (native_queries c1 q) (Some size') (start_cursor c1))
                  in Inr (c1\<lparr>results := Some rs,
                             start_cursor := ds_get_cursor env (native_queries c1 q) (Some size') (start_cursor c1),
                             query_done := \<not> results_truthy rs,
                             trace := trace c1 @ [DatastoreRun (native_queries c1 q) (Some size') (start_cursor c1)]\<rparr>))
             | Inr (Some entity_from_cache, c1) \<Rightarrow>
                 Inr (c1\<lparr>results := Some (PyList [entity_from_cache]),
                         query_done := True, start_cursor := None\<rparr>)))"

text \<open>\<^verbatim>\<open>fetchmany\<close>: the rows returned and the cursor afterwards, or the exception.\<close>

definition fetchmany :: "env \<Rightarrow> int \<Rightarrow> cursor \<Rightarrow> error + (val list list \<times> cursor)" where
  "fetchmany env size' c =
     (let c0 = log_error ''NOT FULLY IMPLEMENTED: Called fetchmany'' c in
      if query_done c0 then Inr ([], c0)
      else
        (case (if results c0 = None then start_fetch env size' c0 else Inr c0) of
           Inl e \<Rightarrow> Inl e
         | Inr c1 \<Rightarrow>
             (case results c1 of
                None \<Rightarrow> Inl TypeError
              | Some rs \<Rightarrow>
                  (let (es, rs') = iterate rs
                   in Inr (map (row_of (queried_fields c1)) es, c1\<lparr>results := Some rs'\<rparr>)))))"

subsection \<open>A query on a fresh cursor\<close>

text \<open>
  The native queries a cursor has emitted: those its pending query objects stand for (the
  queries bound by a multi-query, or the query itself).
\<close>

definition emitted_queries :: "cursor \<Rightarrow> dsquery list" where
  "emitted_queries c = concat (map (native_queries c) (queries c))"

text \<open>
  The lowering of the specification, \<^verbatim>\<open>lower(model, tree) -> (native_queries,
  flat_filter_list)\<close>, is what \<^verbatim>\<open>execute_appengine_query\<close> leaves in a cursor that
  \<^verbatim>\<open>Cursor.__init__\<close> has just built.
\<close>

definition lower :: "model \<Rightarrow> select_query \<Rightarrow> error + (dsquery list \<times> (string \<times> string \<times> val) list)" where
  "lower m query =
     (case execute_appengine_query m query Cursor_init of
        Inl e \<Rightarrow> Inl e
      | Inr c \<Rightarrow> Inr (emitted_queries c, all_filters c))"

text \<open>The rows of the first \<^verbatim>\<open>fetchmany\<close> after a query on a fresh cursor.\<close>

definition query_then_fetch :: "env \<Rightarrow> model \<Rightarrow> select_query \<Rightarrow> int \<Rightarrow> error + val list list" where
  "query_then_fetch env m query size' =
     (case execute_appengine_query m query Cursor_init of
        Inl e \<Rightarrow> Inl e
      | Inr c \<Rightarrow> (case fetchmany env size' c of
                    Inl e \<Rightarrow> Inl e
                  | Inr (rows, c') \<Rightarrow> Inr rows))"

text \<open>The leaves of a tree, in the order of the traversal.\<close>

fun leaves :: "wnode \<Rightarrow> leaf list"
  and leaves_children :: "child list \<Rightarrow> leaf list"
where
  "leaves (Node conn neg cs) = leaves_children cs"
| "leaves_children [] = []"
| "leaves_children (Leaf l # rest) = l # leaves_children rest"
| "leaves_children (Sub w # rest) = leaves w @ leaves_children rest"

section \<open>Notions for the statements and the proofs\<close>

text \<open>
  The columns of a projection (none when there is no projection), the column a filter is
  emitted on (\<^verbatim>\<open>__key__\<close> for the primary key), and the test of
  \<^verbatim>\<open>_update_projection_state\<close> that forbids a projection.
\<close>

definition plist :: "string list option \<Rightarrow> string list" where
  "plist p = (case p of None \<Rightarrow> [] | Some xs \<Rightarrow> xs)"

definition colname :: "field \<Rightarrow> string" where
  "colname f = (if primary_key f then ''__key__'' else column f)"

definition forbids :: "field \<Rightarrow> string \<Rightarrow> bool" where
  "forbids f lt \<longleftrightarrow> db_type f \<in> {''text'', ''bytes''} \<or> lt \<in> {''exact'', ''in''}"

text \<open>
  \<open>uniform P c\<close>: every pending query is an object of the store and has the projection
  \<open>P\<close>. \<open>fresh_list\<close> is the same for a list of references and no projection.
\<close>

definition uniform :: "string list option \<Rightarrow> cursor \<Rightarrow> bool" where
  "uniform P c \<longleftrightarrow> (\<forall>a \<in> set (queries c). a < length (heap c) \<and> projection (heap c ! a) = P)"

definition fresh_list :: "nat list \<Rightarrow> cursor \<Rightarrow> bool" where
  "fresh_list qs c \<longleftrightarrow> (\<forall>a \<in> set qs. a < length (heap c) \<and> projection (heap c ! a) = None)"

text \<open>
  How a step may change the store: objects are only added, the projection and the bound
  queries of an existing object stay, and a new object has neither. \<open>frame\<close> adds that the
  attributes of the cursor other than \<^verbatim>\<open>queries\<close> stay as they are.
\<close>

definition heap_ext :: "cursor \<Rightarrow> cursor \<Rightarrow> bool" where
  "heap_ext c c' \<longleftrightarrow>
     length (heap c) \<le> length (heap c')
     \<and> (\<forall>a < length (heap c). projection (heap c' ! a) = projection (heap c ! a)
                              \<and> bound_queries (heap c' ! a) = bound_queries (heap c ! a))
     \<and> (\<forall>a < length (heap c'). length (heap c) \<le> a \<longrightarrow>
            projection (heap c' ! a) = None \<and> bound_queries (heap c' ! a) = None)"

definition frame :: "cursor \<Rightarrow> cursor \<Rightarrow> bool" where
  "frame c c' \<longleftrightarrow>
     results c' = results c \<and> start_cursor c' = start_cursor c
     \<and> returned_ids c' = returned_ids c \<and> queried_fields c' = queried_fields c
     \<and> query_done c' = query_done c \<and> all_filters c' = all_filters c
     \<and> last_query_model c' = last_query_model c \<and> trace c' = trace c
     \<and> heap_ext c c'"

text \<open>
  \<open>covered A c\<close>: every filter item of every object of the store is in \<open>A\<close>.
  \<open>items\<close> are the items that the triples of a flat filter list stand for, \<open>in_items\<close>
  the equality items that the expansion of one \<^verbatim>\<open>in\<close> leaf writes, and
  \<open>leaf_items\<close> the items one call of \<^verbatim>\<open>_apply_filter\<close> writes, given what it returns.
\<close>

definition covered :: "(string \<times> val) set \<Rightarrow> cursor \<Rightarrow> bool" where
  "covered A c \<longleftrightarrow> (\<forall>obj \<in> set (heap c). set (filters obj) \<subseteq> A)"

definition items :: "(string \<times> string \<times> val) list \<Rightarrow> (string \<times> val) set" where
  "items F = (\<lambda>(col, op, v). (col @ '' '' @ op, v)) ` set F"

definition in_items :: "field \<Rightarrow> val \<Rightarrow> (string \<times> val) set" where
  "in_items f value = (case py_iter value of Inl e \<Rightarrow> {} | Inr vs \<Rightarrow> (\<lambda>x. (colname f @ '' ='', x)) ` set vs)"

definition leaf_items :: "field \<Rightarrow> string \<Rightarrow> val \<Rightarrow> (string \<times> string \<times> val) option \<Rightarrow> (string \<times> val) set" where
  "leaf_items f lt v r =
     (case r of None \<Rightarrow> in_items f v | Some (col, op, x) \<Rightarrow> {(col @ '' '' @ op, x)})"

definition tree_in_items :: "model \<Rightarrow> leaf list \<Rightarrow> (string \<times> val) set" where
  "tree_in_items m ls =
     (\<Union>l \<in> set ls. case parse_child m l of
                       Inl e \<Rightarrow> {}
                     | Inr (f, lt, v) \<Rightarrow> if lt = ''in'' then in_items f v else {})"

text \<open>
  The invariant of the traversal, before and after a list of leaves: the pending queries
  have the projection the query started with or none; once they have none they keep
  none; the store is covered by the flat filter list and the allowance \<open>R\<close>; the flat
  filter list has grown by \<open>recorded_triples\<close>, the triples of the leaves whose lookup
  has an operator, in the order of the leaves (an \<^verbatim>\<open>in\<close> leaf gives none); and a leaf
  that forbids the projection of a projected column has left the pending queries without
  projection.
\<close>

definition leaf_triples :: "model \<Rightarrow> leaf \<Rightarrow> (string \<times> string \<times> val) list" where
  "leaf_triples m l =
     (case parse_child m l of
        Inl e \<Rightarrow> []
      | Inr (f, lt, v) \<Rightarrow>
          if lt = ''in'' then []
          else (case map_of OPERATORS_MAP lt of
                  Some (Some op) \<Rightarrow> [(colname f, op, v)]
                | _ \<Rightarrow> []))"

definition recorded_triples :: "model \<Rightarrow> leaf list \<Rightarrow> (string \<times> string \<times> val) list" where
  "recorded_triples m ls = concat (map (leaf_triples m) ls)"

definition tree_pre :: "model \<Rightarrow> string list option \<Rightarrow> (string \<times> val) set \<Rightarrow> leaf list \<Rightarrow> cursor \<Rightarrow> bool" where
  "tree_pre m P R ls c \<longleftrightarrow>
     (uniform P c \<or> uniform None c) \<and> covered (items (all_filters c) \<union> R) c
     \<and> tree_in_items m ls \<subseteq> R"

definition tree_post :: "model \<Rightarrow> string list option \<Rightarrow> (string \<times> val) set \<Rightarrow> leaf list \<Rightarrow> cursor \<Rightarrow> cursor \<Rightarrow> bool" where
  "tree_post m P R ls c c' \<longleftrightarrow>
     (uniform P c' \<or> uniform None c') \<and> (uniform None c \<longrightarrow> uniform None c')
     \<and> covered (items (all_filters c') \<union> R) c' \<and> heap_ext c c'
     \<and> all_filters c' = all_filters c @ recorded_triples m ls
     \<and> (\<forall>l \<in> set ls. \<forall>f lt v. parse_child m l = Inr (f, lt, v) \<longrightarrow> forbids f lt
            \<longrightarrow> column f \<in> set (plist P) \<longrightarrow> uniform None c')"

text \<open>
  The number of values of an \<^verbatim>\<open>in\<close> leaf (1 for any other leaf), and the product of
  these numbers over a list of leaves.
\<close>

definition leaf_width :: "model \<Rightarrow> leaf \<Rightarrow> nat" where
  "leaf_width m l =
     (case parse_child m l of
        Inl e \<Rightarrow> 1
      | Inr (f, lt, v) \<Rightarrow>
          if lt = ''in'' then (case py_iter v of Inl e \<Rightarrow> 1 | Inr vs \<Rightarrow> length vs) else 1)"

definition fanout :: "model \<Rightarrow> leaf list \<Rightarrow> nat" where
  "fanout m ls = prod_list (map (leaf_width m) ls)"

text \<open>The attributes that a cache probe leaves alone.\<close>

definition same_cursor :: "cursor \<Rightarrow> cursor \<Rightarrow> bool" where
  "same_cursor c c' \<longleftrightarrow> heap c' = heap c \<and> queries c' = queries c
     \<and> queried_fields c' = queried_fields c \<and> start_cursor c' = start_cursor c"

section \<open>Example inputs\<close>

text \<open>
  A model \<^verbatim>\<open>Post\<close> of the application \<^verbatim>\<open>blog\<close> with an automatic primary key
  \<^verbatim>\<open>id\<close> and a unique \<^verbatim>\<open>slug\<close>, which is also declared alone in
  \<^verbatim>\<open>unique_together\<close>.
\<close>

definition id_field :: field where
  "id_field = \<lparr>name = ''id'', column = ''id'', primary_key = True, unique = True,
                db_type = ''key'', has_rel = False\<rparr>"

definition slug_field :: field where
  "slug_field = \<lparr>name = ''slug'', column = ''slug'', primary_key = False, unique = True,
                  db_type = ''string'', has_rel = False\<rparr>"

definition post_model :: model where
  "post_model = \<lparr>app_label = ''blog'', db_table = ''post'',
                  meta_fields = [id_field, slug_field],
                  unique_together = [[''slug'']], pk = id_field\<rparr>"

text \<open>
  A leaf on a field of the queried kind itself, as \<^verbatim>\<open>constraint.process\<close> returns it:
  the alias is the table and the column is the field's.
\<close>

definition leaf_on :: "model \<Rightarrow> field \<Rightarrow> string \<Rightarrow> val \<Rightarrow> leaf" where
  "leaf_on m f lt v =
     \<lparr>constraint_field = f, lookup_type = lt, annotation = VBool False,
      packed_alias = Some (db_table m), packed_column = column f, processed_value = v\<rparr>"

text \<open>
  \<^verbatim>\<open>Post.objects.filter(id__in=[1, 2, 3])\<close>, all fields selected; the values are the
  integers that \<^verbatim>\<open>_parse_child\<close> passes on as they are.
\<close>

definition id_in_123 :: select_query where
  "id_in_123 = \<lparr>select_columns = [],
                 where_tree = Node AND False
                   [Leaf (leaf_on post_model id_field ''in'' (VList [VInt 1, VInt 2, VInt 3]))]\<rparr>"

text \<open>\<^verbatim>\<open>Post.objects.filter(slug__in=['a', 'b', 'c'])\<close>, all fields selected.\<close>

definition slug_in_abc :: select_query where
  "slug_in_abc = \<lparr>select_columns = [],
                   where_tree = Node AND False
                     [Leaf (leaf_on post_model slug_field ''in''
                              (VList [VStr ''a'', VStr ''b'', VStr ''c'']))]\<rparr>"

text \<open>
  A model \<^verbatim>\<open>Article\<close> with an automatic primary key and two character fields, and
  \<^verbatim>\<open>Article.objects.filter(author='x', title__in=['a', 'b'])\<close>.
\<close>

definition author_field :: field where
  "author_field = \<lparr>name = ''author'', column = ''author'', primary_key = False, unique = False,
                    db_type = ''string'', has_rel = False\<rparr>"

definition title_field :: field where
  "title_field = \<lparr>name = ''title'', column = ''title'', primary_key = False, unique = False,
                   db_type = ''string'', has_rel = False\<rparr>"

definition article_model :: model where
  "article_model = \<lparr>app_label = ''blog'', db_table = ''article'',
                     meta_fields = [id_field, author_field, title_field],
                     unique_together = [], pk = id_field\<rparr>"

definition author_x_title_in_ab :: select_query where
  "author_x_title_in_ab = \<lparr>select_columns = [],
       where_tree = Node AND False
         [Leaf (leaf_on article_model author_field ''exact'' (VList [VStr ''x''])),
          Leaf (leaf_on article_model title_field ''in'' (VList [VStr ''a'', VStr ''b'']))]\<rparr>"

text \<open>
  A model \<^verbatim>\<open>Doc\<close> with an automatic primary key, a character field \<^verbatim>\<open>title\<close> and a
  text field \<^verbatim>\<open>body\<close>, and \<^verbatim>\<open>Doc.objects.filter(title='x').values_list('title',
  'body')\<close>: the filtered column is projected.
\<close>

definition body_field :: field where
  "body_field = \<lparr>name = ''body'', column = ''body'', primary_key = False, unique = False,
                  db_type = ''text'', has_rel = False\<rparr>"

definition doc_model :: model where
  "doc_model = \<lparr>app_label = ''blog'', db_table = ''doc'',
                 meta_fields = [id_field, title_field, body_field],
                 unique_together = [], pk = id_field\<rparr>"

definition title_x_projected :: select_query where
  "title_x_projected = \<lparr>select_columns = [''title'', ''body''],
       where_tree = Node AND False
         [Leaf (leaf_on doc_model title_field ''exact'' (VList [VStr ''x'']))]\<rparr>"

text \<open>\<^verbatim>\<open>Post.objects.filter(slug__in=[])\<close>.\<close>

definition slug_in_nothing :: select_query where
  "slug_in_nothing = \<lparr>select_columns = [],
                       where_tree = Node AND False
                         [Leaf (leaf_on post_model slug_field ''in'' (VList []))]\<rparr>"

text \<open>
  A datastore that holds three posts and returns them for every run without a limit, and
  the first \<open>limit\<close> of them for a run with a limit; an empty cache; a \<^verbatim>\<open>str\<close> that is
  right on strings.
\<close>

definition three_posts :: "entity list" where
  "three_posts =
     [\<lparr>key_id_or_name = VInt 1, properties = [(''slug'', VStr ''a'')]\<rparr>,
      \<lparr>key_id_or_name = VInt 2, properties = [(''slug'', VStr ''b'')]\<rparr>,
      \<lparr>key_id_or_name = VInt 3, properties = [(''slug'', VStr ''c'')]\<rparr>]"

fun str_of_val :: "val \<Rightarrow> string" where
  "str_of_val (VStr s) = s"
| "str_of_val _ = ''?''"

definition three_posts_env :: env where
  "three_posts_env =
     \<lparr>ds_run = (\<lambda>qs limit start. case limit of None \<Rightarrow> three_posts
                                               | Some n \<Rightarrow> take (nat n) three_posts),
      ds_get_cursor = (\<lambda>qs limit start. Some ''next''),
      cache_get = (\<lambda>key. None),
      py_str = str_of_val\<rparr>"

text \<open>\<^verbatim>\<open>Post.objects.filter(slug='hello')\<close> and \<^verbatim>\<open>Post.objects.filter(slug__isnull=True)\<close>.\<close>

definition slug_hello :: select_query where
  "slug_hello = \<lparr>select_columns = [],
                  where_tree = Node AND False
                    [Leaf (leaf_on post_model slug_field ''exact'' (VList [VStr ''hello'']))]\<rparr>"

definition slug_isnull :: select_query where
  "slug_isnull = \<lparr>select_columns = [],
                   where_tree = Node AND False
                     [Leaf ((leaf_on post_model slug_field ''isnull'' (VList []))\<lparr>annotation := VBool True\<rparr>)]\<rparr>"

text \<open>
  \<^verbatim>\<open>Post.objects.filter(Q(slug='hello'))\<close> inside one more node: the leaf is a child of a
  child node of the root.
\<close>

definition slug_hello_nested :: select_query where
  "slug_hello_nested = \<lparr>select_columns = [],
       where_tree = Node AND False
         [Sub (Node AND False
            [Leaf (leaf_on post_model slug_field ''exact'' (VList [VStr ''hello'']))])]\<rparr>"

text \<open>
  A cursor in the middle of its work: its single pending query, without filters, has not
  been fetched yet.
\<close>

definition single_pending :: cursor where
  "single_pending = Cursor_init\<lparr>queries := [0], queried_fields := [''__key__'', ''slug''],
       query_done := False,
       heap := [\<lparr>kind = ''post'', filters = [], projection = None, bound_queries = None\<rparr>]\<rparr>"

section \<open>Properties\<close>

subsection \<open>Fingerprints\<close>

lemma filter_eq_replicate_count_list:
  "filter (\<lambda>x. k = x) zs = replicate (count_list zs k) k"
  by (induction zs) auto

lemma sort_key_functional:
  fixes xs ys :: "('k::linorder \<times> 'v) list"
  assumes m: "mset xs = mset ys"
    and fn: "\<And>p q. p \<in> set xs \<Longrightarrow> q \<in> set xs \<Longrightarrow> fst p = fst q \<Longrightarrow> p = q"
  shows "sort_key fst xs = sort_key fst ys"
proof (rule properties_for_sort_key)
  show "mset (sort_key fst ys) = mset xs" using m by simp
  show "sorted (map fst (sort_key fst ys))" by simp
next
  fix k assume "k \<in> set (sort_key fst ys)"
  then have kx: "k \<in> set xs" using m by (metis mset_eq_setD set_sort)
  have sx: "set ys = set xs" using m by (metis mset_eq_setD)
  have eq: "\<And>x. x \<in> set xs \<Longrightarrow> (fst k = fst x) = (k = x)"
    using fn kx by blast
  have e1: "filter (\<lambda>x. fst k = fst x) xs = filter (\<lambda>x. k = x) xs"
    by (rule filter_cong) (simp_all add: eq)
  have e2: "filter (\<lambda>x. fst k = fst x) ys = filter (\<lambda>x. k = x) ys"
    by (rule filter_cong) (simp_all add: eq sx)
  have c: "count_list xs k = count_list ys k"
    using m by (metis count_mset)
  have "filter (\<lambda>x. fst k = fst x) (sort_key fst ys) = filter (\<lambda>x. fst k = fst x) ys"
    using sort_key_stable [of fst "fst k" ys] by (simp add: eq_commute)
  then show "filter (\<lambda>x. fst k = fst x) (sort_key fst ys) = filter (\<lambda>x. fst k = fst x) xs"
    using e1 e2 c by (simp add: filter_eq_replicate_count_list)
qed

text \<open>
  C4, as stated, fails: the sort is stable and compares field names only, so two pairs with
  the same field name and different values keep the order the caller gave them, and the two
  orders give two keys.
\<close>

theorem generate_unique_key_permutation_counterexample:
  "generate_unique_key id post_model [(''slug'', ''a''), (''slug'', ''b'')]
     \<noteq> generate_unique_key id post_model [(''slug'', ''b''), (''slug'', ''a'')]"
  by (simp add: generate_unique_key_def post_model_def)

text \<open>
  C4, amended. For every list of pairs the key is \<^verbatim>\<open><app_label>.<db_table>|\<close> followed
  by the entries \<^verbatim>\<open><field>:<value>\<close> joined by \<^verbatim>\<open>|\<close>, the entries being those of
  the list \<open>sort_key fst pairs\<close>: a permutation of the pairs, ordered by field name, in
  which the pairs of one field name keep the order the caller gave them; and this list is
  the only one with these three properties, so the key is the formatted string of any such
  list. When no two different pairs share a field name, the key of the list is the key of
  every permutation of it.
\<close>

theorem generate_unique_key_permutation:
  "generate_unique_key to_str m pairs =
       app_label m @ ''.'' @ db_table m @ ''|'' @
       join ''|'' (map (\<lambda>(field, value). field @ '':'' @ to_str value) (sort_key fst pairs))
   \<and> mset (sort_key fst pairs) = mset pairs
   \<and> sorted (map fst (sort_key fst pairs))
   \<and> (\<forall>k. filter (\<lambda>p. fst p = k) (sort_key fst pairs) = filter (\<lambda>p. fst p = k) pairs)
   \<and> (\<forall>sorted_pairs.
         mset sorted_pairs = mset pairs \<and> sorted (map fst sorted_pairs)
         \<and> (\<forall>k. filter (\<lambda>p. fst p = k) sorted_pairs = filter (\<lambda>p. fst p = k) pairs)
         \<longrightarrow> generate_unique_key to_str m pairs =
               app_label m @ ''.'' @ db_table m @ ''|'' @
               join ''|'' (map (\<lambda>(field, value). field @ '':'' @ to_str value) sorted_pairs))
   \<and> (mset pairs = mset pairs' \<and> (\<forall>p \<in> set pairs. \<forall>q \<in> set pairs. fst p = fst q \<longrightarrow> p = q)
        \<longrightarrow> generate_unique_key to_str m pairs = generate_unique_key to_str m pairs')"
proof (intro conjI allI impI)
  show fmt: "generate_unique_key to_str m pairs =
       app_label m @ ''.'' @ db_table m @ ''|'' @
       join ''|'' (map (\<lambda>(field, value). field @ '':'' @ to_str value) (sort_key fst pairs))"
    by (simp add: generate_unique_key_def)
  show "mset (sort_key fst pairs) = mset pairs" by simp
  show "sorted (map fst (sort_key fst pairs))" by simp
  show "filter (\<lambda>p. fst p = k) (sort_key fst pairs) = filter (\<lambda>p. fst p = k) pairs" for k
    by (rule sort_key_stable)
  show "generate_unique_key to_str m pairs =
               app_label m @ ''.'' @ db_table m @ ''|'' @
               join ''|'' (map (\<lambda>(field, value). field @ '':'' @ to_str value) sorted_pairs)"
    if h: "mset sorted_pairs = mset pairs \<and> sorted (map fst sorted_pairs)
         \<and> (\<forall>k. filter (\<lambda>p. fst p = k) sorted_pairs = filter (\<lambda>p. fst p = k) pairs)"
    for sorted_pairs
  proof -
    have st: "filter (\<lambda>x. fst k = fst x) sorted_pairs = filter (\<lambda>x. fst k = fst x) pairs" for k
    proof -
      have sw: "filter (\<lambda>x. fst k = fst x) xs = filter (\<lambda>p. fst p = fst k) xs"
        for xs :: "(string \<times> 'a) list"
        by (rule filter_cong) auto
      from h have "filter (\<lambda>p. fst p = fst k) sorted_pairs = filter (\<lambda>p. fst p = fst k) pairs"
        by blast
      then show ?thesis by (simp only: sw)
    qed
    have "sort_key fst pairs = sorted_pairs"
      by (rule properties_for_sort_key) (use h st in simp_all)
    then show ?thesis using fmt by simp
  qed
  show "generate_unique_key to_str m pairs = generate_unique_key to_str m pairs'"
    if h: "mset pairs = mset pairs' \<and> (\<forall>p \<in> set pairs. \<forall>q \<in> set pairs. fst p = fst q \<longrightarrow> p = q)"
  proof -
    have "sort_key fst pairs = sort_key fst pairs'"
      using h by (intro sort_key_functional) auto
    then show ?thesis by (simp add: generate_unique_key_def)
  qed
qed

theorem generate_unique_key_permutation_witness:
  "mset [(''slug'', ''hello''), (''id'', ''1'')] = mset [(''id'', ''1''), (''slug'', ''hello'')]
   \<and> generate_unique_key id post_model [(''slug'', ''hello''), (''id'', ''1'')]
     = generate_unique_key id post_model [(''id'', ''1''), (''slug'', ''hello'')]
   \<and> sorted (map fst [(''id'', ''1''), (''slug'', ''hello'')])
   \<and> generate_unique_key id post_model [(''slug'', ''hello''), (''id'', ''1'')]
     = ''blog.post|id:1|slug:hello''"
proof -
  let ?ps = "[(''slug'', ''hello''), (''id'', ''1'')]"
  let ?sp = "[(''id'', ''1''), (''slug'', ''hello'')]"
  have h1: "mset ?ps = mset ?sp" by simp
  have h2: "\<forall>p \<in> set ?ps. \<forall>q \<in> set ?ps. fst p = fst q \<longrightarrow> p = q" by simp
  have h3: "sorted (map fst ?sp)" by simp
  have h4: "\<forall>k. filter (\<lambda>p. fst p = k) ?sp = filter (\<lambda>p. fst p = k) ?ps" by auto
  note g = generate_unique_key_permutation [of id post_model ?ps ?sp]
  have e1: "generate_unique_key id post_model ?ps = generate_unique_key id post_model ?sp"
    using g h1 h2 by blast
  have "generate_unique_key id post_model ?ps =
          app_label post_model @ ''.'' @ db_table post_model @ ''|'' @
          join ''|'' (map (\<lambda>(field, value). field @ '':'' @ id value) ?sp)"
    using g h1 [symmetric] h3 h4 by blast
  then have e2: "generate_unique_key id post_model ?ps = ''blog.post|id:1|slug:hello''"
    by (simp add: post_model_def)
  show ?thesis using h1 h3 e1 e2 by blast
qed

subsection \<open>Enumeration of the unique constraints\<close>

lemma columns_of_single:
  "get_field m n = Inr f \<Longrightarrow> columns_of m [n] = Inr [column f]"
  by simp

lemma together_columns_mem:
  "together_columns m xs = Inr ts \<Longrightarrow> x \<in> set xs \<Longrightarrow> columns_of m x = Inr cs \<Longrightarrow> cs \<in> set ts"
  by (induction xs arbitrary: ts) (auto split: sum.splits)

lemma distinct_count_list_le1:
  "distinct xs \<Longrightarrow> count_list xs x \<le> 1"
  by (induction xs) (auto simp: count_list_0_iff)

lemma count_list_append_ge2:
  "x \<in> set xs \<Longrightarrow> x \<in> set ys \<Longrightarrow> 2 \<le> count_list (xs @ ys) x"
proof -
  assume "x \<in> set xs" "x \<in> set ys"
  then have "0 < count_list xs x" "0 < count_list ys x"
    by (simp_all add: count_list_0_iff zero_less_iff_neq_zero)
  then show ?thesis by simp
qed

text \<open>
  C8, as stated, fails: nothing in the enumeration removes duplicates. For the model
  \<open>post_model\<close> the column tuple of \<^verbatim>\<open>slug\<close> is listed once for
  \<^verbatim>\<open>unique_together\<close> and once more for the unique field.
\<close>

theorem get_uniques_from_model_counterexample:
  "get_uniques_from_model post_model = Inr [[''slug''], [''id''], [''slug'']]
   \<and> \<not> distinct [[''slug''], [''id''], [''slug'']]"
  by (simp add: get_uniques_from_model_def post_model_def get_field_def id_field_def slug_field_def)

text \<open>
  C8, amended: for every model whose unique constraints include both a single-field unique
  on a field f and a \<^verbatim>\<open>unique_together\<close> tuple containing f alone, the enumeration lists the
  column tuple of f once for each of the two declarations: the tuple occurs at least twice
  in the result, which therefore has duplicates.
\<close>

theorem get_uniques_from_model_lists_both:
  assumes "get_field m (name f) = Inr f"
    and "unique f"
    and "[name f] \<in> set (unique_together m)"
    and "get_uniques_from_model m = Inr us"
  shows "2 \<le> count_list us [column f] \<and> \<not> distinct us"
proof -
  obtain ts where ts: "together_columns m (unique_together m) = Inr ts"
    and us: "us = ts @ map (\<lambda>x. [column x]) (filter unique (meta_fields m))"
    using assms(4) by (auto simp: get_uniques_from_model_def split: sum.splits)
  have "[column f] \<in> set ts"
    using together_columns_mem [OF ts assms(3) columns_of_single [OF assms(1)]] .
  moreover have "f \<in> set (meta_fields m)"
    using assms(1) by (auto simp: get_field_def find_Some_iff split: option.splits)
  then have "[column f] \<in> set (map (\<lambda>x. [column x]) (filter unique (meta_fields m)))"
    using assms(2) by auto
  ultimately have c: "2 \<le> count_list us [column f]"
    unfolding us by (rule count_list_append_ge2)
  have "distinct us \<Longrightarrow> count_list us [column f] \<le> 1"
    by (rule distinct_count_list_le1)
  with c show ?thesis by auto
qed

theorem get_uniques_from_model_lists_both_witness:
  "get_field post_model (name slug_field) = Inr slug_field \<and> unique slug_field
   \<and> [name slug_field] \<in> set (unique_together post_model)
   \<and> get_uniques_from_model post_model = Inr [[''slug''], [''id''], [''slug'']]
   \<and> 2 \<le> count_list [[''slug''], [''id''], [''slug'']] [column slug_field]"
proof -
  have h1: "get_field post_model (name slug_field) = Inr slug_field"
    by (simp add: post_model_def get_field_def id_field_def slug_field_def)
  have h2: "unique slug_field" by (simp add: slug_field_def)
  have h3: "[name slug_field] \<in> set (unique_together post_model)"
    by (simp add: post_model_def slug_field_def)
  have h4: "get_uniques_from_model post_model = Inr [[''slug''], [''id''], [''slug'']]"
    by (simp add: get_uniques_from_model_def post_model_def get_field_def id_field_def slug_field_def)
  show ?thesis
    using get_uniques_from_model_lists_both [OF h1 h2 h3 h4] h1 h2 h3 h4 by simp
qed

subsection \<open>SQL strings\<close>

text \<open>
  C7, as stated, fails: the exception raised is a \<^verbatim>\<open>RuntimeError\<close>, which is neither
  \<^verbatim>\<open>DatabaseError\<close> nor a subclass of it.
\<close>

theorem execute_counterexample:
  "execute ''SELECT 1'' [] = Inl RuntimeError \<and> \<not> is_DatabaseError RuntimeError"
  by (simp add: execute_def)

text \<open>
  C7, amended: for every SQL string and parameters, \<^verbatim>\<open>Cursor.execute(sql, *params)\<close> raises
  \<^verbatim>\<open>RuntimeError\<close>, and never returns.
\<close>

theorem execute_raises_RuntimeError:
  "execute sql params = Inl RuntimeError"
  by (simp add: execute_def)

subsection \<open>The object store\<close>

declare apply_filter.simps [simp del]

lemma nth_update_any:
  "xs[i := x] ! j = (if i = j \<and> i < length xs then x else xs ! j)"
  by (cases "i < length xs") (auto simp: nth_list_update list_update_beyond not_less)

lemma heap_ext_refl: "heap_ext c c"
  by (simp add: heap_ext_def)

lemma heap_ext_trans:
  assumes 1: "heap_ext c c'" and 2: "heap_ext c' c''"
  shows "heap_ext c c''"
proof -
  have len: "length (heap c) \<le> length (heap c')" "length (heap c') \<le> length (heap c'')"
    using 1 2 by (simp_all add: heap_ext_def)
  have old: "projection (heap c'' ! a) = projection (heap c ! a)
           \<and> bound_queries (heap c'' ! a) = bound_queries (heap c ! a)"
    if "a < length (heap c)" for a
  proof -
    have "a < length (heap c')" using that len by simp
    then show ?thesis using 1 2 that by (simp add: heap_ext_def)
  qed
  have new: "projection (heap c'' ! a) = None \<and> bound_queries (heap c'' ! a) = None"
    if "a < length (heap c'')" "length (heap c) \<le> a" for a
  proof (cases "a < length (heap c')")
    case True
    then have "projection (heap c' ! a) = None \<and> bound_queries (heap c' ! a) = None"
      using 1 that by (simp add: heap_ext_def)
    then show ?thesis using 2 True by (simp add: heap_ext_def)
  next
    case False
    then show ?thesis using 2 that by (simp add: heap_ext_def)
  qed
  show ?thesis
    unfolding heap_ext_def using old new len by simp
qed

lemma frame_refl: "frame c c"
  by (simp add: frame_def heap_ext_refl)

lemma frame_trans: "frame c c' \<Longrightarrow> frame c' c'' \<Longrightarrow> frame c c''"
  using heap_ext_trans by (auto simp: frame_def)

lemma covered_mono: "covered A c \<Longrightarrow> A \<subseteq> B \<Longrightarrow> covered B c"
  by (auto simp: covered_def)

lemma set_setitem: "set (setitem k v d) \<subseteq> insert (k, v) (set d)"
  by (induction d) (auto split: if_splits)

lemma set_dict_update: "set (dict_update d other) \<subseteq> set d \<union> set other"
  unfolding dict_update_def
proof (induction other arbitrary: d)
  case Nil
  then show ?case by simp
next
  case (Cons p other)
  obtain k v where p: "p = (k, v)" by (cases p)
  have "set (fold (\<lambda>(k, v). setitem k v) other (setitem k v d)) \<subseteq> set (setitem k v d) \<union> set other"
    by (rule Cons.IH)
  also have "\<dots> \<subseteq> insert (k, v) (set d) \<union> set other"
    using set_setitem [of k v d] by auto
  finally show ?case by (auto simp: p)
qed

lemma Query_new_props:
  assumes "Query_new knd None c = (a, c')"
  shows "a = length (heap c)" "length (heap c') = Suc (length (heap c))" "queries c' = queries c"
    "frame c c'" "covered A c \<Longrightarrow> covered A c'" "filters (heap c' ! a) = []"
    "\<And>b. b < length (heap c) \<Longrightarrow> heap c' ! b = heap c ! b"
  using assms by (auto simp: Query_new_def frame_def heap_ext_def covered_def nth_append less_Suc_eq)

lemma query_update_props:
  shows "length (heap (query_update dst src c)) = length (heap c)"
    "queries (query_update dst src c) = queries c"
    "frame c (query_update dst src c)"
    "src < length (heap c) \<Longrightarrow> covered A c \<Longrightarrow> covered A (query_update dst src c)"
proof -
  show "length (heap (query_update dst src c)) = length (heap c)"
    "queries (query_update dst src c) = queries c"
    by (simp_all add: query_update_def)
  show "frame c (query_update dst src c)"
    by (simp add: query_update_def frame_def heap_ext_def nth_update_any)
  assume src: "src < length (heap c)" and cv: "covered A c"
  show "covered A (query_update dst src c)"
  proof (cases "dst < length (heap c)")
    case True
    have "set (dict_update (filters (heap c ! dst)) (filters (heap c ! src))) \<subseteq> A"
      using set_dict_update [of "filters (heap c ! dst)" "filters (heap c ! src)"] cv src True
      by (auto simp: covered_def dest: nth_mem)
    then show ?thesis
      using cv set_update_subset_insert [of "heap c" dst]
      by (fastforce simp: covered_def query_update_def)
  next
    case False
    then show ?thesis using cv by (simp add: covered_def query_update_def list_update_beyond not_less)
  qed
qed

lemma query_setitem_props:
  assumes st: "query_setitem a k v c = Inr c'"
  shows "length (heap c') = length (heap c)"
    "queries c' = queries c"
    "frame c c'"
    "covered A c \<Longrightarrow> (k, v) \<in> A \<Longrightarrow> covered A c'"
proof -
  have c': "c' = c\<lparr>heap := (heap c)[a := (heap c ! a)\<lparr>filters :=
                      setitem k v (filters (heap c ! a))\<rparr>]\<rparr>"
    using st by (auto simp: query_setitem_def split: option.splits)
  show "length (heap c') = length (heap c)" "queries c' = queries c"
    by (simp_all add: c')
  show "frame c c'"
    by (simp add: c' frame_def heap_ext_def nth_update_any)
  assume cv: "covered A c" and kv: "(k, v) \<in> A"
  show "covered A c'"
  proof (cases "a < length (heap c)")
    case True
    have "set (setitem k v (filters (heap c ! a))) \<subseteq> A"
      using set_setitem [of k v "filters (heap c ! a)"] cv kv True
      by (auto simp: covered_def dest: nth_mem)
    then show ?thesis
      using cv set_update_subset_insert [of "heap c" a]
      by (fastforce simp: covered_def c')
  next
    case False
    then show ?thesis using cv by (simp add: covered_def c' list_update_beyond not_less)
  qed
qed

lemma frame_fresh_list: "frame c c' \<Longrightarrow> fresh_list qs c \<Longrightarrow> fresh_list qs c'"
  by (auto simp: frame_def heap_ext_def fresh_list_def)

lemma frame_uniform: "frame c c' \<Longrightarrow> queries c' = queries c \<Longrightarrow> uniform P c \<Longrightarrow> uniform P c'"
  by (auto simp: frame_def heap_ext_def uniform_def)

lemma frame_valid: "frame c c' \<Longrightarrow> a < length (heap c) \<Longrightarrow> a < length (heap c')"
  by (auto simp: frame_def heap_ext_def)

lemma clone_props:
  assumes n: "Query_new knd None c = (a, c1)"
  shows "frame c (query_update a src c1)"
    "queries (query_update a src c1) = queries c"
    "a < length (heap (query_update a src c1))"
    "projection (heap (query_update a src c1) ! a) = None"
    "src < length (heap c) \<Longrightarrow> covered A c \<Longrightarrow> covered A (query_update a src c1)"
proof -
  note q = Query_new_props [OF n]
  have a: "a < length (heap c1)" using q(1,2) by simp
  note u = query_update_props [where dst = a and src = src and c = c1]
  show "frame c (query_update a src c1)" using frame_trans [OF q(4) u(3)] .
  then have fr: "frame c (query_update a src c1)" .
  show "queries (query_update a src c1) = queries c" using u(2) q(3) by simp
  show "a < length (heap (query_update a src c1))" using u(1) a by simp
  show "projection (heap (query_update a src c1) ! a) = None"
    using fr q(1) u(1) a by (simp add: frame_def heap_ext_def)
  show "covered A (query_update a src c1)" if "src < length (heap c)" "covered A c"
  proof -
    have "src < length (heap c1)" using that(1) q(2) by simp
    then show ?thesis using q(5) u(4) that(2) by blast
  qed
qed

subsection \<open>Dropping the projection\<close>

lemma rebuild_queries_props:
  assumes "rebuild_queries qs acc c = (nq, c')" and "fresh_list acc c"
  shows "frame c c' \<and> queries c' = queries c \<and> fresh_list nq c' \<and> length nq = length acc + length qs
       \<and> ((\<forall>a \<in> set qs. a < length (heap c)) \<longrightarrow> covered A c \<longrightarrow> covered A c')"
  using assms
proof (induction qs arbitrary: acc c)
  case Nil
  then show ?case by (simp add: frame_refl)
next
  case (Cons q qs)
  obtain a c1 where n: "Query_new (kind (heap c ! q)) None c = (a, c1)"
    by (cases "Query_new (kind (heap c ! q)) None c")
  let ?c2 = "query_update a q c1"
  note cl = clone_props [OF n, where src = q]
  have r: "rebuild_queries qs (acc @ [a]) ?c2 = (nq, c')"
    using Cons.prems(1) n by simp
  have fl: "fresh_list (acc @ [a]) ?c2"
    using frame_fresh_list [OF cl(1) Cons.prems(2)] cl(3,4) by (simp add: fresh_list_def)
  from Cons.IH [OF r fl]
  have ih: "frame ?c2 c'" "queries c' = queries ?c2" "fresh_list nq c'"
    "length nq = length (acc @ [a]) + length qs"
    "(\<forall>a \<in> set qs. a < length (heap ?c2)) \<longrightarrow> covered A ?c2 \<longrightarrow> covered A c'"
    by simp_all
  have cov: "covered A c'" if v: "\<forall>a \<in> set (q # qs). a < length (heap c)" and cv: "covered A c"
  proof -
    have "\<forall>a \<in> set qs. a < length (heap ?c2)"
      using v frame_valid [OF cl(1)] by simp
    moreover have "covered A ?c2" using cl(5) [where A = A] v cv by simp
    ultimately show ?thesis using ih(5) by blast
  qed
  show ?case
    using frame_trans [OF cl(1) ih(1)] ih(2-4) cl(2) cov by simp
qed

lemma update_projection_state_total:
  "queries c \<noteq> [] \<Longrightarrow> \<exists>c1. update_projection_state f lt c = Inr c1"
  by (cases "queries c"; cases "rebuild_queries (queries c) [] c")
     (auto simp: update_projection_state_def query_get_def Let_def)

lemma update_projection_state_alt:
  assumes "update_projection_state f lt c = Inr c1"
  obtains "c1 = c" | nq c' where "rebuild_queries (queries c) [] c = (nq, c')" "c1 = c'\<lparr>queries := nq\<rparr>"
proof -
  obtain nq c' where r: "rebuild_queries (queries c) [] c = (nq, c')"
    by (cases "rebuild_queries (queries c) [] c")
  have "c1 = c \<or> c1 = c'\<lparr>queries := nq\<rparr>"
    using assms r
    by (auto simp: update_projection_state_def Let_def split: sum.splits if_splits)
  then show ?thesis using that r by blast
qed

lemma rebuilt_props:
  assumes r: "rebuild_queries (queries c) [] c = (nq, c')"
  shows "frame c (c'\<lparr>queries := nq\<rparr>)" "uniform None (c'\<lparr>queries := nq\<rparr>)"
    "length nq = length (queries c)"
    "(\<forall>a \<in> set (queries c). a < length (heap c)) \<Longrightarrow> covered A c \<Longrightarrow> covered A (c'\<lparr>queries := nq\<rparr>)"
proof -
  have "fresh_list [] c" by (simp add: fresh_list_def)
  from rebuild_queries_props [OF r this, where A = A]
  have rb: "frame c c'" "queries c' = queries c" "fresh_list nq c'" "length nq = length (queries c)"
    "(\<forall>a \<in> set (queries c). a < length (heap c)) \<longrightarrow> covered A c \<longrightarrow> covered A c'" by simp_all
  show "frame c (c'\<lparr>queries := nq\<rparr>)" using rb(1) by (simp add: frame_def heap_ext_def)
  show "uniform None (c'\<lparr>queries := nq\<rparr>)" using rb(3) by (simp add: uniform_def fresh_list_def)
  show "length nq = length (queries c)" by (rule rb(4))
  show "covered A (c'\<lparr>queries := nq\<rparr>)"
    if "\<forall>a \<in> set (queries c). a < length (heap c)" "covered A c"
    using rb(5) that by (simp add: covered_def)
qed

lemma update_projection_state_drops:
  assumes q: "queries c = q # rest" and pq: "projection (heap c ! q) = Some P"
    and col: "column f \<in> set P"
    and cond: "db_type f \<in> {''text'', ''bytes''} \<or> lt \<in> {''exact'', ''in''}"
  shows "\<exists>c1. update_projection_state f lt c = Inr c1 \<and> uniform None c1 \<and> frame c c1"
proof -
  obtain nq c' where r: "rebuild_queries (queries c) [] c = (nq, c')"
    by (cases "rebuild_queries (queries c) [] c")
  have "update_projection_state f lt c = Inr (c'\<lparr>queries := nq\<rparr>)"
    using q pq col cond r
    by (auto simp: update_projection_state_def query_get_def Let_def)
  then show ?thesis using rebuilt_props(1,2) [OF r] by blast
qed

lemma update_projection_state_props:
  assumes up: "update_projection_state f lt c = Inr c1" and un: "uniform P c"
  shows "frame c c1" "length (queries c1) = length (queries c)"
    "c1 = c \<or> uniform None c1"
    "covered A c \<Longrightarrow> covered A c1"
    "column f \<in> set (plist P) \<Longrightarrow> db_type f \<in> {''text'', ''bytes''} \<or> lt \<in> {''exact'', ''in''}
       \<Longrightarrow> uniform None c1"
proof -
  have v: "\<forall>a \<in> set (queries c). a < length (heap c)" using un by (simp add: uniform_def)
  show "frame c c1" "length (queries c1) = length (queries c)" "c1 = c \<or> uniform None c1"
    using up rebuilt_props(1-3) frame_refl
    by (auto elim!: update_projection_state_alt)
  show "covered A c \<Longrightarrow> covered A c1"
    using up rebuilt_props(4) [OF _ v]
    by (auto elim!: update_projection_state_alt)
  assume col: "column f \<in> set (plist P)" and cond: "db_type f \<in> {''text'', ''bytes''} \<or> lt \<in> {''exact'', ''in''}"
  obtain q rest where q: "queries c = q # rest"
    using up by (cases "queries c") (simp_all add: update_projection_state_def query_get_def)
  have pq: "projection (heap c ! q) = P" using un q by (simp add: uniform_def)
  obtain P' where P': "P = Some P'" using col by (cases P) (simp_all add: plist_def)
  from update_projection_state_drops [OF q pq [unfolded P'] col [unfolded P' plist_def, simplified] cond]
  show "uniform None c1" using up by auto
qed

subsection \<open>One filter\<close>

lemma apply_filter_not_in:
  assumes "lt \<noteq> ''in''"
  shows "apply_filter m f lt ng v qtu c =
    (case (case qtu of None \<Rightarrow> query_get c
                     | Some q \<Rightarrow> if truthy_query (heap c ! q) then Inr q else query_get c) of
       Inl e \<Rightarrow> Inl e
     | Inr t \<Rightarrow>
         (case map_of OPERATORS_MAP lt of
            None \<Rightarrow> Inl DatabaseError
          | Some None \<Rightarrow>
              (case update_projection_state f lt c of Inl e \<Rightarrow> Inl e | Inr c1 \<Rightarrow> Inl AssertionError)
          | Some (Some op) \<Rightarrow>
              (case update_projection_state f lt c of
                 Inl e \<Rightarrow> Inl e
               | Inr c1 \<Rightarrow>
                   (case query_setitem t (colname f @ '' '' @ op) v c1 of
                      Inl e \<Rightarrow> Inl e
                    | Inr c2 \<Rightarrow> Inr (Some (colname f, op, v), c2)))))"
  using assms by (auto simp: apply_filter.simps colname_def Let_def split: sum.splits option.splits)

lemma apply_filter_in:
  "apply_filter m f ''in'' ng v qtu c =
    (case (case qtu of None \<Rightarrow> query_get c
                     | Some q \<Rightarrow> if truthy_query (heap c ! q) then Inr q else query_get c) of
       Inl e \<Rightarrow> Inl e
     | Inr t \<Rightarrow>
         (case update_projection_state f ''in'' c of
            Inl e \<Rightarrow> Inl e
          | Inr c1 \<Rightarrow>
              (case expand_queries m f ng v (queries c1) [] c1 of
                 Inl e \<Rightarrow> Inl e
               | Inr (nq, c2) \<Rightarrow> Inr (None, c2\<lparr>queries := nq\<rparr>))))"
  by (auto simp: apply_filter.simps OPERATORS_MAP_def Let_def split: sum.splits option.splits)

lemma apply_filter_plain_props:
  assumes ap: "apply_filter m f lt ng v qtu c = Inr (r, c')" and ni: "lt \<noteq> ''in''"
    and un: "uniform P c"
  shows "\<exists>op. map_of OPERATORS_MAP lt = Some (Some op) \<and> r = Some (colname f, op, v)"
    "frame c c'" "length (queries c') = length (queries c)"
    "uniform P c' \<or> uniform None c'"
    "uniform None c \<Longrightarrow> uniform None c'"
    "covered A c \<Longrightarrow> (\<forall>op. map_of OPERATORS_MAP lt = Some (Some op) \<longrightarrow> (colname f @ '' '' @ op, v) \<in> A)
       \<Longrightarrow> covered A c'"
    "column f \<in> set (plist P) \<Longrightarrow> db_type f \<in> {''text'', ''bytes''} \<or> lt \<in> {''exact'', ''in''}
       \<Longrightarrow> uniform None c'"
proof -
  from ap obtain t op c1 where
    op: "map_of OPERATORS_MAP lt = Some (Some op)"
    and up: "update_projection_state f lt c = Inr c1"
    and r: "r = Some (colname f, op, v)"
    and si: "query_setitem t (colname f @ '' '' @ op) v c1 = Inr c'"
    unfolding apply_filter_not_in [OF ni]
    by (auto split: sum.splits option.splits)
  note u = update_projection_state_props [OF up un]
  note st = query_setitem_props [OF si]
  have fs: "frame c1 c'" "queries c' = queries c1" using st by simp_all
  show "\<exists>op. map_of OPERATORS_MAP lt = Some (Some op) \<and> r = Some (colname f, op, v)"
    using op r by simp
  show "frame c c'" using frame_trans [OF u(1) fs(1)] .
  show "length (queries c') = length (queries c)" using fs(2) u(2) by simp
  have "uniform P c1 \<or> uniform None c1" using u(3) un by auto
  then show "uniform P c' \<or> uniform None c'"
    using frame_uniform [OF fs] by blast
  show "uniform None c'" if "uniform None c"
  proof -
    have "uniform None c1" using u(3) that by auto
    then show ?thesis using frame_uniform [OF fs] by blast
  qed
  show "covered A c'"
    if "covered A c" "\<forall>op. map_of OPERATORS_MAP lt = Some (Some op) \<longrightarrow> (colname f @ '' '' @ op, v) \<in> A"
    using st(4) [where A = A] u(4) [where A = A] that op by simp
  show "uniform None c'"
    if "column f \<in> set (plist P)" "db_type f \<in> {''text'', ''bytes''} \<or> lt \<in> {''exact'', ''in''}"
    using u(5) [OF that] frame_uniform [OF fs] by blast
qed

lemma expand_values_props:
  assumes "expand_values m f ng query vs acc c = Inr (acc', c')"
    and "uniform P c" and "query < length (heap c)" and "fresh_list acc c"
  shows "frame c c' \<and> (uniform P c' \<or> uniform None c') \<and> (uniform None c \<longrightarrow> uniform None c')
       \<and> fresh_list acc' c' \<and> length acc' = length acc + length vs
       \<and> (covered A c \<longrightarrow> (\<forall>x \<in> set vs. (colname f @ '' ='', x) \<in> A) \<longrightarrow> covered A c')"
  using assms
proof (induction vs arbitrary: acc c P)
  case Nil
  then show ?case by (simp add: frame_refl)
next
  case (Cons x vs)
  obtain a c1 where n: "Query_new (db_table m) None c = (a, c1)"
    by (cases "Query_new (db_table m) None c")
  let ?c2 = "query_update a query c1"
  note cl = clone_props [OF n, where src = query]
  have u2: "uniform P ?c2" using frame_uniform [OF cl(1,2) Cons.prems(2)] .
  obtain r c3 where ap: "apply_filter m f ''exact'' ng x (Some a) ?c2 = Inr (r, c3)"
    and rest: "expand_values m f ng query vs (acc @ [a]) c3 = Inr (acc', c')"
    using Cons.prems(1) n by (auto split: sum.splits)
  have ne: "''exact'' \<noteq> ''in''" by simp
  note p = apply_filter_plain_props [OF ap ne u2]
  have f3: "frame c c3" using frame_trans [OF cl(1) p(2)] .
  have q3: "query < length (heap c3)" using frame_valid [OF f3 Cons.prems(3)] .
  have fl2: "fresh_list (acc @ [a]) ?c2"
    using frame_fresh_list [OF cl(1) Cons.prems(4)] cl(3,4) by (simp add: fresh_list_def)
  have fl3: "fresh_list (acc @ [a]) c3" using frame_fresh_list [OF p(2) fl2] .
  have opx: "map_of OPERATORS_MAP ''exact'' = Some (Some ''='')" by (simp add: OPERATORS_MAP_def)
  have cov3: "covered A c3" if "covered A c" "(colname f @ '' ='', x) \<in> A"
    using p(6) [where A = A] cl(5) [where A = A] that opx Cons.prems(3) by simp
  show ?case
  proof (cases "uniform None c3")
    case True
    from Cons.IH [OF rest True q3 fl3]
    have ih: "frame c3 c'" "uniform None c'" "fresh_list acc' c'"
      "length acc' = length (acc @ [a]) + length vs"
      "covered A c3 \<longrightarrow> (\<forall>x \<in> set vs. (colname f @ '' ='', x) \<in> A) \<longrightarrow> covered A c'"
      by auto
    show ?thesis using frame_trans [OF f3 ih(1)] ih(2-5) cov3 by auto
  next
    case False
    then have u3: "uniform P c3" and nn: "\<not> uniform None c" using p(4) p(5) u2 cl(1,2) frame_uniform 
      by (blast, metis frame_uniform cl(1,2) p(5))
    from Cons.IH [OF rest u3 q3 fl3]
    have ih: "frame c3 c'" "uniform P c' \<or> uniform None c'" "fresh_list acc' c'"
      "length acc' = length (acc @ [a]) + length vs"
      "covered A c3 \<longrightarrow> (\<forall>x \<in> set vs. (colname f @ '' ='', x) \<in> A) \<longrightarrow> covered A c'"
      by auto
    show ?thesis using frame_trans [OF f3 ih(1)] ih(2-5) cov3 nn by auto
  qed
qed

lemma expand_queries_props:
  assumes "expand_queries m f ng value qs acc c = Inr (acc', c')"
    and "uniform P c" and "\<forall>a \<in> set qs. a < length (heap c)" and "fresh_list acc c"
  shows "frame c c' \<and> (uniform P c' \<or> uniform None c') \<and> (uniform None c \<longrightarrow> uniform None c')
       \<and> fresh_list acc' c'
       \<and> (covered A c \<longrightarrow> in_items f value \<subseteq> A \<longrightarrow> covered A c')"
  using assms
proof (induction qs arbitrary: acc c P)
  case Nil
  then show ?case by (simp add: frame_refl)
next
  case (Cons q qs)
  obtain vs acc1 c1 where it: "py_iter value = Inr vs"
    and ev: "expand_values m f ng q vs acc c = Inr (acc1, c1)"
    and rest: "expand_queries m f ng value qs acc1 c1 = Inr (acc', c')"
    using Cons.prems(1) by (auto split: sum.splits)
  have q: "q < length (heap c)" using Cons.prems(3) by simp
  from expand_values_props [OF ev Cons.prems(2) q Cons.prems(4), where A = A]
  have e: "frame c c1" "uniform P c1 \<or> uniform None c1" "uniform None c \<longrightarrow> uniform None c1"
    "fresh_list acc1 c1"
    "covered A c \<longrightarrow> (\<forall>x \<in> set vs. (colname f @ '' ='', x) \<in> A) \<longrightarrow> covered A c1"
    by simp_all
  have v1: "\<forall>a \<in> set qs. a < length (heap c1)"
    using Cons.prems(3) frame_valid [OF e(1)] by simp
  have items: "in_items f value \<subseteq> A \<Longrightarrow> \<forall>x \<in> set vs. (colname f @ '' ='', x) \<in> A"
    using it by (auto simp: in_items_def)
  show ?case
  proof (cases "uniform None c1")
    case True
    from Cons.IH [OF rest True v1 e(4)]
    have ih: "frame c1 c'" "uniform None c'" "fresh_list acc' c'"
      "covered A c1 \<longrightarrow> in_items f value \<subseteq> A \<longrightarrow> covered A c'"
      by auto
    show ?thesis using frame_trans [OF e(1) ih(1)] ih(2-4) e(5) items by auto
  next
    case False
    then have u1: "uniform P c1" and nn: "\<not> uniform None c" using e(2,3) by auto
    from Cons.IH [OF rest u1 v1 e(4)]
    have ih: "frame c1 c'" "uniform P c' \<or> uniform None c'" "fresh_list acc' c'"
      "covered A c1 \<longrightarrow> in_items f value \<subseteq> A \<longrightarrow> covered A c'"
      by auto
    show ?thesis using frame_trans [OF e(1) ih(1)] ih(2-4) e(5) items nn by auto
  qed
qed

lemma apply_filter_in_props:
  assumes ap: "apply_filter m f ''in'' ng v qtu c = Inr (r, c')" and un: "uniform P c"
  shows "r = None" "frame c c'" "uniform None c'"
    "covered A c \<Longrightarrow> in_items f v \<subseteq> A \<Longrightarrow> covered A c'"
proof -
  from ap obtain c1 nq c2 where
    up: "update_projection_state f ''in'' c = Inr c1"
    and ex: "expand_queries m f ng v (queries c1) [] c1 = Inr (nq, c2)"
    and r: "r = None" and c': "c' = c2\<lparr>queries := nq\<rparr>"
    unfolding apply_filter_in by (auto split: sum.splits option.splits)
  note u = update_projection_state_props [OF up un]
  have u1: "uniform P c1 \<or> uniform None c1" using u(3) un by auto
  then obtain P1 where u1': "uniform P1 c1" by blast
  then have v1: "\<forall>a \<in> set (queries c1). a < length (heap c1)" by (simp add: uniform_def)
  have "fresh_list [] c1" by (simp add: fresh_list_def)
  from expand_queries_props [OF ex u1' v1 this, where A = A]
  have e: "frame c1 c2" "fresh_list nq c2" "covered A c1 \<longrightarrow> in_items f v \<subseteq> A \<longrightarrow> covered A c2"
    by simp_all
  show "r = None" by (rule r)
  have "frame c c2" using frame_trans [OF u(1) e(1)] .
  then show "frame c c'" by (simp add: c' frame_def heap_ext_def)
  show "uniform None c'" using e(2) by (simp add: c' uniform_def fresh_list_def)
  show "covered A c'" if "covered A c" "in_items f v \<subseteq> A"
    using u(4) [where A = A] e(3) that by (simp add: c' covered_def)
qed

lemma apply_filter_props:
  assumes ap: "apply_filter m f lt ng v qtu c = Inr (r, c')" and un: "uniform P c"
  shows "frame c c'" "uniform P c' \<or> uniform None c'"
    "uniform None c \<Longrightarrow> uniform None c'"
    "covered A c \<Longrightarrow> leaf_items f lt v r \<subseteq> A \<Longrightarrow> covered A c'"
    "column f \<in> set (plist P) \<Longrightarrow> forbids f lt \<Longrightarrow> uniform None c'"
    "r = None \<longleftrightarrow> lt = ''in''"
    "lt \<noteq> ''in'' \<Longrightarrow> \<exists>op. map_of OPERATORS_MAP lt = Some (Some op) \<and> r = Some (colname f, op, v)"
proof -
  show "\<exists>op. map_of OPERATORS_MAP lt = Some (Some op) \<and> r = Some (colname f, op, v)"
    if "lt \<noteq> ''in''"
    using apply_filter_plain_props(1) [OF ap that un] .
  show "frame c c'" "uniform P c' \<or> uniform None c'" "r = None \<longleftrightarrow> lt = ''in''"
    using apply_filter_in_props [OF _ un] apply_filter_plain_props [OF _ _ un] ap
    by (cases "lt = ''in''"; fastforce)+
  show "uniform None c'" if "uniform None c"
    using apply_filter_in_props [OF _ un] apply_filter_plain_props(5) [OF _ _ un] ap that
    by (cases "lt = ''in''"; fastforce)
  show "uniform None c'" if "column f \<in> set (plist P)" "forbids f lt"
    using apply_filter_in_props [OF _ un] apply_filter_plain_props(7) [OF _ _ un] ap that
    unfolding forbids_def
    by (cases "lt = ''in''"; fastforce)
  show "covered A c'" if cv: "covered A c" and li: "leaf_items f lt v r \<subseteq> A"
  proof (cases "lt = ''in''")
    case True
    then have "r = None" using apply_filter_in_props(1) [OF _ un] ap by blast
    then show ?thesis using apply_filter_in_props(4) [OF _ un cv] ap True li
      by (simp add: leaf_items_def)
  next
    case False
    from apply_filter_plain_props(1) [OF ap False un]
    obtain op where "map_of OPERATORS_MAP lt = Some (Some op)" "r = Some (colname f, op, v)" by blast
    then show ?thesis using apply_filter_plain_props(6) [OF ap False un cv] li
      by (simp add: leaf_items_def)
  qed
qed

lemma guard_step:
  assumes ap: "apply_filter m f lt ng v None c = Inr (r, c')"
    and q: "queries c = q # rest" and pq: "projection (heap c ! q) = Some P"
    and col: "column f \<in> set P"
    and cond: "db_type f \<in> {''text'', ''bytes''} \<or> lt \<in> {''exact'', ''in''}"
  shows "\<exists>c1. update_projection_state f lt c = Inr c1
          \<and> (\<forall>a \<in> set (queries c1). projection (heap c1 ! a) = None)
          \<and> (\<forall>a \<in> set (queries c'). projection (heap c' ! a) = None)
          \<and> (\<forall>op. map_of OPERATORS_MAP lt = Some (Some op) \<longrightarrow>
                 query_setitem q ((if primary_key f then ''__key__'' else column f) @ '' '' @ op) v c1
                   = Inr c')
          \<and> (lt = ''in'' \<longrightarrow>
                 (\<exists>nq c2. expand_queries m f ng v (queries c1) [] c1 = Inr (nq, c2)
                          \<and> c' = c2\<lparr>queries := nq\<rparr>))"
proof -
  from update_projection_state_drops [OF q pq col cond]
  obtain c1 where up: "update_projection_state f lt c = Inr c1" and u1: "uniform None c1"
    by blast
  have qg: "query_get c = Inr q" using q by (simp add: query_get_def)
  have n1: "\<forall>a \<in> set (queries c1). projection (heap c1 ! a) = None"
    using u1 by (simp add: uniform_def)
  show ?thesis
  proof (cases "lt = ''in''")
    case True
    from ap obtain nq c2 where ex: "expand_queries m f ng v (queries c1) [] c1 = Inr (nq, c2)"
      and c': "c' = c2\<lparr>queries := nq\<rparr>"
      unfolding True apply_filter_in using qg up True by (auto split: sum.splits)
    have v1: "\<forall>a \<in> set (queries c1). a < length (heap c1)" using u1 by (simp add: uniform_def)
    have "fresh_list [] c1" by (simp add: fresh_list_def)
    from expand_queries_props [OF ex u1 v1 this, where A = UNIV]
    have "fresh_list nq c2" by simp
    then have n': "\<forall>a \<in> set (queries c'). projection (heap c' ! a) = None"
      by (simp add: c' fresh_list_def)
    have "map_of OPERATORS_MAP lt = Some None" using True by (simp add: OPERATORS_MAP_def)
    then show ?thesis using up n1 n' ex c' True by auto
  next
    case False
    from ap obtain op where op: "map_of OPERATORS_MAP lt = Some (Some op)"
      and si: "query_setitem q (colname f @ '' '' @ op) v c1 = Inr c'"
      unfolding apply_filter_not_in [OF False] using qg up
      by (auto split: sum.splits option.splits)
    note st = query_setitem_props [OF si]
    have "uniform None c'" using frame_uniform [OF st(3) st(2) u1] by simp
    then have n': "\<forall>a \<in> set (queries c'). projection (heap c' ! a) = None"
      by (simp add: uniform_def)
    show ?thesis using up n1 n' op si False by (auto simp: colname_def)
  qed
qed

lemma expand_queries_no_values:
  "expand_queries m f ng (VList []) qs acc c = Inr (acc, c)"
  by (induction qs) simp_all

subsection \<open>The traversal of the tree\<close>

lemma tree_post_refl: "tree_pre m P R ls c \<Longrightarrow> tree_post m P R [] c c"
  by (simp add: tree_pre_def tree_post_def heap_ext_refl recorded_triples_def)

lemma tree_pre_split:
  "tree_pre m P R (ls1 @ ls2) c \<Longrightarrow> tree_pre m P R ls1 c"
  "tree_pre m P R (ls1 @ ls2) c \<Longrightarrow> tree_post m P R ls1 c c1 \<Longrightarrow> tree_pre m P R ls2 c1"
  by (auto simp: tree_pre_def tree_post_def tree_in_items_def)

lemma tree_post_trans:
  assumes 1: "tree_post m P R ls1 c c1" and 2: "tree_post m P R ls2 c1 c'"
  shows "tree_post m P R (ls1 @ ls2) c c'"
proof -
  have he: "heap_ext c c'" using 1 2 heap_ext_trans by (auto simp: tree_post_def)
  have af: "all_filters c' = all_filters c @ recorded_triples m (ls1 @ ls2)"
    using 1 2 by (simp add: tree_post_def recorded_triples_def)
  have u: "uniform P c' \<or> uniform None c'" "uniform None c \<longrightarrow> uniform None c'"
    "covered (items (all_filters c') \<union> R) c'"
    using 1 2 by (auto simp: tree_post_def)
  have l1: "\<forall>l \<in> set ls1. \<forall>f lt v. parse_child m l = Inr (f, lt, v) \<longrightarrow> forbids f lt
            \<longrightarrow> column f \<in> set (plist P) \<longrightarrow> uniform None c'"
    using 1 2 unfolding tree_post_def by blast
  have l2: "\<forall>l \<in> set ls2. \<forall>f lt v. parse_child m l = Inr (f, lt, v) \<longrightarrow> forbids f lt
            \<longrightarrow> column f \<in> set (plist P) \<longrightarrow> uniform None c'"
    using 2 unfolding tree_post_def by blast
  show ?thesis
    unfolding tree_post_def using he af u l1 l2 by (simp add: ball_Un)
qed

lemma leaf_step:
  assumes pc: "parse_child m l = Inr (f, lt, v)"
    and ap: "apply_filter m f lt ng v None c = Inr (r, c1)"
    and pre: "tree_pre m P R [l] c"
    and c2: "c2 = (case r of None \<Rightarrow> c1 | Some t \<Rightarrow> c1\<lparr>all_filters := all_filters c1 @ [t]\<rparr>)"
  shows "tree_post m P R [l] c c2"
proof -
  have same: "heap c2 = heap c1" "queries c2 = queries c1"
    by (simp_all add: c2 split: option.splits)
  have un_eq: "\<And>Q. uniform Q c2 = uniform Q c1" by (simp add: uniform_def same)
  have cov_eq: "\<And>A. covered A c2 = covered A c1" by (simp add: covered_def same)
  have he: "heap_ext c c2"
  proof -
    obtain P' where "uniform P' c" using pre by (auto simp: tree_pre_def)
    from apply_filter_props(1) [OF ap this] show ?thesis
      by (simp add: frame_def heap_ext_def same)
  qed
  have af1: "all_filters c1 = all_filters c"
  proof -
    obtain P' where "uniform P' c" using pre by (auto simp: tree_pre_def)
    from apply_filter_props(1) [OF ap this] show ?thesis by (simp add: frame_def)
  qed
  have cv: "covered (items (all_filters c) \<union> R) c" using pre by (simp add: tree_pre_def)
  have li: "leaf_items f lt v r \<subseteq> items (all_filters c2) \<union> R"
  proof (cases r)
    case None
    obtain P' where "uniform P' c" using pre by (auto simp: tree_pre_def)
    from apply_filter_props(6) [OF ap this] None have "lt = ''in''" by simp
    then have "in_items f v \<subseteq> R" using pre pc by (simp add: tree_pre_def tree_in_items_def)
    then show ?thesis using None by (auto simp: leaf_items_def)
  next
    case (Some t)
    then show ?thesis by (cases t) (auto simp: leaf_items_def c2 items_def)
  qed
  have "set (all_filters c) \<subseteq> set (all_filters c2)"
    by (auto simp: c2 af1 split: option.splits)
  then have sub: "items (all_filters c) \<subseteq> items (all_filters c2)"
    unfolding items_def by (rule image_mono)
  have cv': "covered (items (all_filters c2) \<union> R) c" 
    using covered_mono [OF cv] sub by blast
  have post_cov: "covered (items (all_filters c2) \<union> R) c2"
  proof -
    obtain P' where "uniform P' c" using pre by (auto simp: tree_pre_def)
    from apply_filter_props(4) [OF ap this cv' li] show ?thesis by (simp add: cov_eq)
  qed
  have u_none: "uniform None c \<Longrightarrow> uniform None c2"
    using apply_filter_props(3) [OF ap] by (simp add: un_eq)
  have u_any: "uniform P c2 \<or> uniform None c2"
  proof (cases "uniform None c")
    case True
    then show ?thesis using u_none by simp
  next
    case False
    then have "uniform P c" using pre by (auto simp: tree_pre_def)
    from apply_filter_props(2) [OF ap this] show ?thesis by (simp add: un_eq)
  qed
  have drop: "uniform None c2" if "forbids f lt" "column f \<in> set (plist P)"
  proof (cases "uniform None c")
    case True
    then show ?thesis using u_none by simp
  next
    case False
    then have "uniform P c" using pre by (auto simp: tree_pre_def)
    from apply_filter_props(5) [OF ap this that(2) that(1)] show ?thesis by (simp add: un_eq)
  qed
  have rec: "all_filters c2 = all_filters c @ recorded_triples m [l]"
  proof (cases "lt = ''in''")
    case True
    obtain P' where "uniform P' c" using pre by (auto simp: tree_pre_def)
    from apply_filter_props(6) [OF ap this] True have "r = None" by simp
    then show ?thesis using True pc af1 by (simp add: c2 recorded_triples_def leaf_triples_def)
  next
    case False
    obtain P' where "uniform P' c" using pre by (auto simp: tree_pre_def)
    from apply_filter_props(7) [OF ap this False]
    obtain op where "map_of OPERATORS_MAP lt = Some (Some op)" "r = Some (colname f, op, v)"
      by blast
    then show ?thesis using False pc af1 by (simp add: c2 recorded_triples_def leaf_triples_def)
  qed
  show ?thesis
    unfolding tree_post_def using u_any u_none post_cov he drop pc rec by auto
qed

lemma apply_tree_props:
  fixes P :: "string list option" and R :: "(string \<times> val) set"
  shows "apply_filters m w af ng c = Inr c' \<Longrightarrow> tree_pre m P R (leaves w) c
           \<Longrightarrow> tree_post m P R (leaves w) c c'"
    and "apply_children m cs af ng c = Inr c' \<Longrightarrow> tree_pre m P R (leaves_children cs) c
           \<Longrightarrow> tree_post m P R (leaves_children cs) c c'"
proof (induction m w af ng c and m cs af ng c arbitrary: c' and c'
       rule: apply_filters_apply_children.induct)
  case (1 m conn neg cs all_filters_arg negated_arg c)
  let ?ng = "if neg then py_not c negated_arg else negated_arg"
  have run: "apply_children m cs all_filters_arg ?ng c = Inr c'"
    using "1.prems"(1) by (simp add: Let_def split: if_splits)
  have ok: "\<not> (\<not> truthy c ?ng \<and> conn \<noteq> AND)"
    using "1.prems"(1) by (auto simp: Let_def split: if_splits)
  show ?case
    using "1.IH" [OF refl ok run] "1.prems"(2) by simp
next
  case (2 m all_filters_arg negated_arg c)
  then show ?case by (simp add: tree_post_refl)
next
  case (3 m w rest all_filters_arg negated_arg c)
  obtain c1 where a: "apply_filters m w negated_arg all_filters_arg c = Inr c1"
    and r: "apply_children m rest all_filters_arg negated_arg c1 = Inr c'"
    using "3.prems"(1) by (auto split: sum.splits)
  have pre: "tree_pre m P R (leaves w @ leaves_children rest) c" using "3.prems"(2) by simp
  have p1: "tree_post m P R (leaves w) c c1"
    using "3.IH"(1) [OF a tree_pre_split(1) [OF pre]] .
  have p2: "tree_post m P R (leaves_children rest) c1 c'"
    using "3.IH"(2) [OF a r tree_pre_split(2) [OF pre p1]] .
  show ?case using tree_post_trans [OF p1 p2] by simp
next
  case (4 m l rest all_filters_arg negated_arg c)
  obtain f lt v where pc: "parse_child m l = Inr (f, lt, v)"
    using "4.prems"(1) by (auto split: sum.splits)
  obtain r c1 where ap: "apply_filter m f lt negated_arg v None c = Inr (r, c1)"
    using "4.prems"(1) pc by (auto split: sum.splits)
  have pre: "tree_pre m P R ([l] @ leaves_children rest) c" using "4.prems"(2) by simp
  let ?c2 = "case r of None \<Rightarrow> c1 | Some t \<Rightarrow> c1\<lparr>all_filters := all_filters c1 @ [t]\<rparr>"
  have p1: "tree_post m P R [l] c ?c2"
    using leaf_step [OF pc ap tree_pre_split(1) [OF pre] refl] .
  have pre2: "tree_pre m P R (leaves_children rest) ?c2"
    using tree_pre_split(2) [OF pre p1] .
  have p2: "tree_post m P R (leaves_children rest) ?c2 c'"
  proof (cases r)
    case None
    then have run: "apply_children m rest all_filters_arg negated_arg c1 = Inr c'"
      using "4.prems"(1) pc ap by simp
    show ?thesis
      using "4.IH"(1) [OF pc refl refl ap [unfolded None] refl refl run] pre2 None by simp
  next
    case (Some t)
    then have dl: "all_filters_arg = DList"
      and run: "apply_children m rest all_filters_arg negated_arg (c1\<lparr>all_filters := all_filters c1 @ [t]\<rparr>) = Inr c'"
      using "4.prems"(1) pc ap by (auto split: dyn.splits)
    show ?thesis
      using "4.IH"(2) [OF pc refl refl ap [unfolded Some] refl refl dl run] pre2 Some by simp
  qed
  show ?case using tree_post_trans [OF p1 p2] by simp
qed

subsection \<open>A query on a fresh cursor\<close>

lemma wrap_queries_cases:
  assumes "wrap_queries c5 = Inr c6"
  shows "(length (queries c5) \<le> 1 \<and> c6 = c5)
       \<or> (1 < length (queries c5) \<and> length (queries c5) \<le> MAX_ALLOWABLE_QUERIES
          \<and> c6 = c5\<lparr>heap := heap c5 @ [\<lparr>kind = [], filters = [], projection = None,
                                            bound_queries = Some (queries c5)\<rparr>],
                     queries := [length (heap c5)]\<rparr>)"
  using assms by (auto simp: wrap_queries_def MultiQuery_new_def split: if_splits)

lemma execute_fresh_obtain:
  assumes "execute_appengine_query m q Cursor_init = Inr c'"
  obtains c4 c5 c6 P where
    "heap c4 = [\<lparr>kind = db_table m, filters = [], projection = P, bound_queries = None\<rparr>]"
    "queries c4 = [0]" "all_filters c4 = []" "results c4 = None"
    "apply_filters m (where_tree q) DList (DBool False) c4 = Inr c5"
    "wrap_queries c5 = Inr c6"
    "c' = c6\<lparr>last_query_model := Some m, query_done := False\<rparr>"
proof -
  define fields1 where "fields1 = replace_first (name (pk m)) ''__key__''
      (if select_columns q \<noteq> [] then select_columns q else map column (meta_fields m))"
  define P where "P = (if select_columns q \<noteq> [] then Some fields1 else None)"
  define c4 where "c4 = Cursor_init\<lparr>queried_fields := fields1,
      heap := [\<lparr>kind = db_table m, filters = [], projection = P, bound_queries = None\<rparr>],
      queries := [0], all_filters := []\<rparr>"
  have e: "execute_appengine_query m q Cursor_init =
      (case apply_filters m (where_tree q) DList (DBool False) c4 of
         Inl e \<Rightarrow> Inl e
       | Inr c5 \<Rightarrow>
           (case wrap_queries c5 of
              Inl e \<Rightarrow> Inl e
            | Inr c6 \<Rightarrow> Inr (c6\<lparr>last_query_model := Some m, query_done := False\<rparr>)))"
    by (simp add: execute_appengine_query_def c4_def P_def fields1_def Cursor_init_def Query_new_def
                  query_set_def Let_def split: sum.splits)
  obtain c5 where a: "apply_filters m (where_tree q) DList (DBool False) c4 = Inr c5"
    using assms unfolding e by (cases "apply_filters m (where_tree q) DList (DBool False) c4") simp_all
  obtain c6 where w: "wrap_queries c5 = Inr c6"
    using assms by (cases "wrap_queries c5") (simp_all add: e a)
  have c': "c' = c6\<lparr>last_query_model := Some m, query_done := False\<rparr>"
    using assms by (simp add: e a w)
  show ?thesis
    by (rule that [OF _ _ _ _ a w c']) (simp_all add: c4_def Cursor_init_def)
qed

lemma concat_native_queries:
  "\<forall>a \<in> set qs. bound_queries (heap c ! a) = None
     \<Longrightarrow> concat (map (native_queries c) qs) = map ((!) (heap c)) qs"
  by (induction qs) (simp_all add: native_queries_def)

lemma native_queries_heap: "heap c' = heap c \<Longrightarrow> native_queries c' = native_queries c"
  by (rule ext) (simp add: native_queries_def split: option.splits)

lemma emitted_after_wrap:
  assumes v: "\<forall>a \<in> set (queries c5). a < length (heap c5)"
    and b: "\<forall>a < length (heap c5). bound_queries (heap c5 ! a) = None"
    and w: "wrap_queries c5 = Inr c6"
  shows "emitted_queries (c6\<lparr>last_query_model := x, query_done := y\<rparr>)
           = map ((!) (heap c5)) (queries c5)"
  using wrap_queries_cases [OF w]
proof (elim disjE conjE)
  assume "1 < length (queries c5)"
    and c6: "c6 = c5\<lparr>heap := heap c5 @ [\<lparr>kind = [], filters = [], projection = None,
                                            bound_queries = Some (queries c5)\<rparr>],
                     queries := [length (heap c5)]\<rparr>"
  have "map ((!) (heap c5 @ [z])) (queries c5) = map ((!) (heap c5)) (queries c5)" for z
    using v by (simp add: nth_append)
  then show ?thesis
    by (simp add: c6 emitted_queries_def native_queries_def)
next
  assume "length (queries c5) \<le> 1" and c6: "c6 = c5"
  have "concat (map (native_queries c5) (queries c5)) = map ((!) (heap c5)) (queries c5)"
    using v b by (intro concat_native_queries) simp
  moreover have "native_queries (c5\<lparr>last_query_model := x, query_done := y\<rparr>) = native_queries c5"
    by (rule native_queries_heap) simp
  ultimately show ?thesis
    by (simp add: c6 emitted_queries_def)
qed

lemma execute_obtain:
  assumes ex: "execute_appengine_query m q Cursor_init = Inr c'"
  obtains c4 c5 c6 P where
    "heap c4 = [\<lparr>kind = db_table m, filters = [], projection = P, bound_queries = None\<rparr>]"
    "queries c4 = [0]" "all_filters c4 = []"
    "apply_filters m (where_tree q) DList (DBool False) c4 = Inr c5"
    "tree_post m P (tree_in_items m (leaves (where_tree q))) (leaves (where_tree q)) c4 c5"
    "wrap_queries c5 = Inr c6"
    "c' = c6\<lparr>last_query_model := Some m, query_done := False\<rparr>"
    "\<forall>a \<in> set (queries c5). a < length (heap c5)"
    "\<forall>a < length (heap c5). bound_queries (heap c5 ! a) = None"
proof -
  from ex obtain c4 c5 c6 P where
    h4: "heap c4 = [\<lparr>kind = db_table m, filters = [], projection = P, bound_queries = None\<rparr>]"
    and q4: "queries c4 = [0]" and f4: "all_filters c4 = []"
    and ap: "apply_filters m (where_tree q) DList (DBool False) c4 = Inr c5"
    and w: "wrap_queries c5 = Inr c6"
    and c': "c' = c6\<lparr>last_query_model := Some m, query_done := False\<rparr>"
    by (rule execute_fresh_obtain)
  let ?R = "tree_in_items m (leaves (where_tree q))"
  have pre: "tree_pre m P ?R (leaves (where_tree q)) c4"
    by (simp add: tree_pre_def uniform_def covered_def h4 q4 f4)
  have post: "tree_post m P ?R (leaves (where_tree q)) c4 c5"
    using apply_tree_props(1) [OF ap pre] .
  have v: "\<forall>a \<in> set (queries c5). a < length (heap c5)"
    using post by (auto simp: tree_post_def uniform_def)
  have b: "\<forall>a < length (heap c5). bound_queries (heap c5 ! a) = None"
  proof (intro allI impI)
    fix a assume a: "a < length (heap c5)"
    have he: "heap_ext c4 c5" using post by (simp add: tree_post_def)
    show "bound_queries (heap c5 ! a) = None"
    proof (cases "a < length (heap c4)")
      case True
      then have "bound_queries (heap c5 ! a) = bound_queries (heap c4 ! a)"
        using he by (simp add: heap_ext_def)
      then show ?thesis using True by (simp add: h4)
    next
      case False
      then show ?thesis using he a by (simp add: heap_ext_def)
    qed
  qed
  show ?thesis by (rule that [OF h4 q4 f4 ap post w c' v b])
qed

lemma lower_obtain:
  assumes "lower m q = Inr (qs, fl)"
  obtains c4 c5 P where
    "heap c4 = [\<lparr>kind = db_table m, filters = [], projection = P, bound_queries = None\<rparr>]"
    "queries c4 = [0]" "all_filters c4 = []"
    "apply_filters m (where_tree q) DList (DBool False) c4 = Inr c5"
    "tree_post m P (tree_in_items m (leaves (where_tree q))) (leaves (where_tree q)) c4 c5"
    "qs = map ((!) (heap c5)) (queries c5)" "fl = all_filters c5"
    "\<forall>a \<in> set (queries c5). a < length (heap c5)"
proof -
  obtain c' where ex: "execute_appengine_query m q Cursor_init = Inr c'"
    and qs: "qs = emitted_queries c'" and fl: "fl = all_filters c'"
    using assms by (auto simp: lower_def split: sum.splits)
  from ex obtain c4 c5 c6 P where
    h4: "heap c4 = [\<lparr>kind = db_table m, filters = [], projection = P, bound_queries = None\<rparr>]"
    and q4: "queries c4 = [0]" and f4: "all_filters c4 = []"
    and ap: "apply_filters m (where_tree q) DList (DBool False) c4 = Inr c5"
    and post: "tree_post m P (tree_in_items m (leaves (where_tree q))) (leaves (where_tree q)) c4 c5"
    and w: "wrap_queries c5 = Inr c6"
    and c': "c' = c6\<lparr>last_query_model := Some m, query_done := False\<rparr>"
    and v: "\<forall>a \<in> set (queries c5). a < length (heap c5)"
    and b: "\<forall>a < length (heap c5). bound_queries (heap c5 ! a) = None"
    by (rule execute_obtain)
  have af: "all_filters c6 = all_filters c5"
    using wrap_queries_cases [OF w] by auto
  show ?thesis
    by (rule that [OF h4 q4 f4 ap post _ _ v])
       (simp_all add: qs fl c' emitted_after_wrap [OF v b w] af)
qed

lemma empty_in_lowering:
  assumes pc: "parse_child m l = Inr (f, ''in'', VList [])"
  shows "\<exists>c. execute_appengine_query m \<lparr>select_columns = sel, where_tree = Node AND False [Leaf l]\<rparr> Cursor_init = Inr c
           \<and> queries c = [] \<and> results c = None \<and> \<not> query_done c"
proof -
  let ?q = "\<lparr>select_columns = sel, where_tree = Node AND False [Leaf l]\<rparr>"
  define fields1 where "fields1 = replace_first (name (pk m)) ''__key__''
      (if sel \<noteq> [] then sel else map column (meta_fields m))"
  define P where "P = (if sel \<noteq> [] then Some fields1 else None)"
  define c4 where "c4 = Cursor_init\<lparr>queried_fields := fields1,
      heap := [\<lparr>kind = db_table m, filters = [], projection = P, bound_queries = None\<rparr>],
      queries := [0], all_filters := []\<rparr>"
  have e: "execute_appengine_query m ?q Cursor_init =
      (case apply_filters m (where_tree ?q) DList (DBool False) c4 of
         Inl e \<Rightarrow> Inl e
       | Inr c5 \<Rightarrow>
           (case wrap_queries c5 of
              Inl e \<Rightarrow> Inl e
            | Inr c6 \<Rightarrow> Inr (c6\<lparr>last_query_model := Some m, query_done := False\<rparr>)))"
    by (simp add: execute_appengine_query_def c4_def P_def fields1_def Cursor_init_def Query_new_def
                  query_set_def Let_def split: sum.splits)
  have q4: "queries c4 \<noteq> []" "results c4 = None" "query_get c4 = Inr 0"
    by (simp_all add: c4_def Cursor_init_def query_get_def)
  obtain c1 where up: "update_projection_state f ''in'' c4 = Inr c1"
    using update_projection_state_total [OF q4(1)] by blast
  have u4: "uniform P c4" by (simp add: uniform_def c4_def)
  have f1: "frame c4 c1" using update_projection_state_props(1) [OF up u4] .
  have af: "apply_filter m f ''in'' (DBool False) (VList []) None c4 = Inr (None, c1\<lparr>queries := []\<rparr>)"
    by (simp add: apply_filter_in q4 up expand_queries_no_values)
  have run: "apply_filters m (where_tree ?q) DList (DBool False) c4 = Inr (c1\<lparr>queries := []\<rparr>)"
    by (simp add: pc af)
  have w: "wrap_queries (c1\<lparr>queries := []\<rparr>) = Inr (c1\<lparr>queries := []\<rparr>)"
    by (simp add: wrap_queries_def)
  have "results c1 = None" using f1 q4(2) by (simp add: frame_def)
  then show ?thesis unfolding e run by (simp add: w)
qed

lemma emitted_projection_free:
  assumes lo: "lower m q = Inr (qs, fl)" and l: "l \<in> set (leaves (where_tree q))"
    and pc: "parse_child m l = Inr (f, lt, v)"
    and cond: "db_type f \<in> {''text'', ''bytes''} \<or> lt \<in> {''exact'', ''in''}"
    and nq: "nq \<in> set qs"
  shows "column f \<notin> set (plist (projection nq))"
proof -
  from lo obtain c4 c5 P where
    h4: "heap c4 = [\<lparr>kind = db_table m, filters = [], projection = P, bound_queries = None\<rparr>]"
    and post: "tree_post m P (tree_in_items m (leaves (where_tree q))) (leaves (where_tree q)) c4 c5"
    and qs: "qs = map ((!) (heap c5)) (queries c5)"
    by (rule lower_obtain)
  obtain a where a: "a \<in> set (queries c5)" and nqa: "nq = heap c5 ! a" using nq qs by auto
  have u: "uniform P c5 \<or> uniform None c5" using post by (simp add: tree_post_def)
  show ?thesis
  proof (cases "column f \<in> set (plist P)")
    case True
    then have "uniform None c5" using post l pc cond by (auto simp: tree_post_def forbids_def)
    then show ?thesis using a nqa by (simp add: uniform_def plist_def)
  next
    case False
    then show ?thesis using u a nqa by (auto simp: uniform_def plist_def)
  qed
qed

subsection \<open>Fetching\<close>

lemma get_entity_from_cache_frame:
  "get_entity_from_cache env key c = (e, c') \<Longrightarrow> same_cursor c c'"
  by (auto simp: get_entity_from_cache_def log_error_def Let_def same_cursor_def
           split: option.splits if_splits)

lemma probe_uniques_frame:
  "probe_uniques env m lk us e c = (e', c') \<Longrightarrow> same_cursor c c'"
proof (induction us arbitrary: e c)
  case Nil
  then show ?case by (simp add: same_cursor_def)
next
  case (Cons fs us)
  show ?case
  proof (cases "final_key lk fs []")
    case None
    with Cons show ?thesis by simp
  next
    case (Some k)
    obtain e1 c1 where g: "get_entity_from_cache env (generate_unique_key (py_str env) m k) c = (e1, c1)"
      by (cases "get_entity_from_cache env (generate_unique_key (py_str env) m k) c")
    with Cons.prems Some have "probe_uniques env m lk us e1 c1 = (e', c')" by simp
    from Cons.IH [OF this] get_entity_from_cache_frame [OF g]
    show ?thesis by (simp add: same_cursor_def)
  qed
qed

lemma start_fetch_single:
  assumes "start_fetch env n c = Inr c1" "queries c = q # rest" "bound_queries (heap c ! q) = None"
  shows "queried_fields c1 = queried_fields c \<and>
    (results c1 = Some (Iterator (ds_run env (native_queries c q) (Some n) (start_cursor c)))
     \<or> (\<exists>e. results c1 = Some (PyList [e]) \<and> query_done c1))"
  using assms
  by (auto simp: start_fetch_def Let_def native_queries_def same_cursor_def
           split: option.splits sum.splits if_splits prod.splits
           dest!: probe_uniques_frame)

lemma start_fetch_multi:
  assumes "start_fetch env n c = Inr c1" "queries c = q # rest" "bound_queries (heap c ! q) \<noteq> None"
  shows "queried_fields c1 = queried_fields c \<and> query_done c1 \<and>
    results c1 = Some (Iterator (ds_run env (native_queries c q) None None))"
  using assms by (auto simp: start_fetch_def)

subsection \<open>The flat filter list\<close>

text \<open>
  C1, as stated, fails: the expansion of an \<^verbatim>\<open>in\<close> leaf writes equality filters into
  the new queries and returns \<^verbatim>\<open>None\<close>, so nothing is appended to the flat filter list
  (the source notes it: \<^verbatim>\<open>IN queries return None here, all_filters is empty on an IN
  query\<close>). For \<^verbatim>\<open>author='x', title__in=['a', 'b']\<close> the two native queries carry the
  filters \<^verbatim>\<open>title = a\<close> and \<^verbatim>\<open>title = b\<close>, and the flat filter list holds the triple
  of \<^verbatim>\<open>author\<close> only.
\<close>

theorem flat_filter_list_counterexample:
  "lower article_model author_x_title_in_ab =
     Inr ([\<lparr>kind = ''article'', filters = [(''author ='', VStr ''x''), (''title ='', VStr ''a'')],
              projection = None, bound_queries = None\<rparr>,
           \<lparr>kind = ''article'', filters = [(''author ='', VStr ''x''), (''title ='', VStr ''b'')],
              projection = None, bound_queries = None\<rparr>],
          [(''author'', ''='', VStr ''x'')])"
  by code_simp

text \<open>
  A leaf in a child node of the root is not accepted when it applies a filter that is
  recorded: the recursive call hands the boolean \<^verbatim>\<open>negated\<close> over as
  \<^verbatim>\<open>all_filters\<close>, and \<^verbatim>\<open>append\<close> fails on it.
\<close>

lemma nested_leaf_rejected:
  "lower post_model slug_hello_nested = Inl AttributeError"
  by code_simp

text \<open>
  C1, amended: for every model and predicate tree accepted by the lowerer, the flat filter
  list is exactly the list of the triples \<^verbatim>\<open>(column, op, value)\<close> of the leaves of the
  tree whose lookup is not \<^verbatim>\<open>in\<close>, in the order of the traversal (\<open>recorded_triples\<close>:
  an \<^verbatim>\<open>in\<close> leaf contributes no triple, so the equality filters that its expansion
  writes are not recorded by it); and every filter \<^verbatim>\<open>(column, op, value)\<close> carried by an
  emitted native query is a triple of the flat filter list, or is an equality filter
  \<^verbatim>\<open>(column, '=', v)\<close> written by the expansion of an \<^verbatim>\<open>in\<close> leaf of the tree, \<open>v\<close>
  being one of the values of that leaf. This holds for the leaves of nested child nodes as
  for those of the root.
\<close>

theorem flat_filter_list_records:
  assumes lo: "lower m q = Inr (qs, fl)"
  shows "fl = recorded_triples m (leaves (where_tree q))
       \<and> (\<forall>nq \<in> set qs. \<forall>(k, x) \<in> set (filters nq).
            (\<exists>col op. (col, op, x) \<in> set fl \<and> k = col @ '' '' @ op)
          \<or> (\<exists>l f value vs. l \<in> set (leaves (where_tree q)) \<and> parse_child m l = Inr (f, ''in'', value)
                \<and> py_iter value = Inr vs \<and> x \<in> set vs
                \<and> k = (if primary_key f then ''__key__'' else column f) @ '' =''))"
proof -
  from lo obtain c4 c5 P where
    f4: "all_filters c4 = []"
    and post: "tree_post m P (tree_in_items m (leaves (where_tree q))) (leaves (where_tree q)) c4 c5"
    and qs: "qs = map ((!) (heap c5)) (queries c5)" and fl: "fl = all_filters c5"
    and v: "\<forall>a \<in> set (queries c5). a < length (heap c5)"
    by (rule lower_obtain)
  have "all_filters c5 = all_filters c4 @ recorded_triples m (leaves (where_tree q))"
    using post unfolding tree_post_def by blast
  then have rec: "fl = recorded_triples m (leaves (where_tree q))"
    using f4 fl by simp
  have cov: "covered (items (all_filters c5) \<union> tree_in_items m (leaves (where_tree q))) c5"
    using post unfolding tree_post_def by blast
  have each: "(\<exists>col op. (col, op, x) \<in> set fl \<and> k = col @ '' '' @ op)
          \<or> (\<exists>l f value vs. l \<in> set (leaves (where_tree q)) \<and> parse_child m l = Inr (f, ''in'', value)
                \<and> py_iter value = Inr vs \<and> x \<in> set vs
                \<and> k = (if primary_key f then ''__key__'' else column f) @ '' ='')"
    if nq: "nq \<in> set qs" and kx: "(k, x) \<in> set (filters nq)" for nq k x
  proof -
    have "nq \<in> set (heap c5)" using nq qs v by auto
    then have "(k, x) \<in> items fl \<union> tree_in_items m (leaves (where_tree q))"
      using kx cov by (auto simp: covered_def fl)
    then show ?thesis
    proof
      assume "(k, x) \<in> items fl"
      then show ?thesis by (auto simp: items_def)
    next
      assume "(k, x) \<in> tree_in_items m (leaves (where_tree q))"
      then obtain l where l: "l \<in> set (leaves (where_tree q))"
        and mem: "(k, x) \<in> (case parse_child m l of
                         Inl e \<Rightarrow> {}
                       | Inr (f, lt, v) \<Rightarrow> if lt = ''in'' then in_items f v else {})"
        unfolding tree_in_items_def by blast
      from mem obtain f lt v where pc: "parse_child m l = Inr (f, lt, v)"
        by (cases "parse_child m l") auto
      from mem pc have lt: "lt = ''in''" and it: "(k, x) \<in> in_items f v"
        by (simp_all split: if_splits)
      from it obtain vs where "py_iter v = Inr vs" "x \<in> set vs" "k = colname f @ '' =''"
        by (auto simp: in_items_def split: sum.splits)
      then have "l \<in> set (leaves (where_tree q)) \<and> parse_child m l = Inr (f, ''in'', v)
               \<and> py_iter v = Inr vs \<and> x \<in> set vs
               \<and> k = (if primary_key f then ''__key__'' else column f) @ '' =''"
        using l pc lt by (simp add: colname_def)
      then show ?thesis by (intro disjI2) blast
    qed
  qed
  show ?thesis
  proof (intro conjI ballI)
    show "fl = recorded_triples m (leaves (where_tree q))" by (rule rec)
  next
    fix nq kx assume nq: "nq \<in> set qs" and kx: "kx \<in> set (filters nq)"
    obtain k x where p: "kx = (k, x)" by (cases kx)
    from each [OF nq kx [unfolded p]]
    show "case kx of (k, x) \<Rightarrow>
            (\<exists>col op. (col, op, x) \<in> set fl \<and> k = col @ '' '' @ op)
          \<or> (\<exists>l f value vs. l \<in> set (leaves (where_tree q)) \<and> parse_child m l = Inr (f, ''in'', value)
                \<and> py_iter value = Inr vs \<and> x \<in> set vs
                \<and> k = (if primary_key f then ''__key__'' else column f) @ '' ='')"
      unfolding p prod.case .
  qed
qed

theorem flat_filter_list_records_witness:
  "lower post_model slug_hello =
     Inr ([\<lparr>kind = ''post'', filters = [(''slug ='', VStr ''hello'')], projection = None,
              bound_queries = None\<rparr>],
          [(''slug'', ''='', VStr ''hello'')])
   \<and> [(''slug'', ''='', VStr ''hello'')] = recorded_triples post_model (leaves (where_tree slug_hello))
   \<and> ((\<exists>col op. (col, op, VStr ''hello'') \<in> set [(''slug'', ''='', VStr ''hello'')]
                 \<and> ''slug ='' = col @ '' '' @ op)
      \<or> (\<exists>l f value vs. l \<in> set (leaves (where_tree slug_hello))
             \<and> parse_child post_model l = Inr (f, ''in'', value)
             \<and> py_iter value = Inr vs \<and> VStr ''hello'' \<in> set vs
             \<and> ''slug ='' = (if primary_key f then ''__key__'' else column f) @ '' =''))"
proof -
  let ?nq = "\<lparr>kind = ''post'', filters = [(''slug ='', VStr ''hello'')], projection = None,
              bound_queries = None\<rparr>"
  let ?fl = "[(''slug'', ''='', VStr ''hello'')]"
  have h1: "lower post_model slug_hello = Inr ([?nq], ?fl)"
    by code_simp
  note g = flat_filter_list_records [OF h1]
  have g1: "?fl = recorded_triples post_model (leaves (where_tree slug_hello))"
    using g by (rule conjunct1)
  have g2: "\<forall>nq \<in> set [?nq]. \<forall>(k, x) \<in> set (filters nq).
            (\<exists>col op. (col, op, x) \<in> set ?fl \<and> k = col @ '' '' @ op)
          \<or> (\<exists>l f value vs. l \<in> set (leaves (where_tree slug_hello))
                \<and> parse_child post_model l = Inr (f, ''in'', value)
                \<and> py_iter value = Inr vs \<and> x \<in> set vs
                \<and> k = (if primary_key f then ''__key__'' else column f) @ '' ='')"
    using g by (rule conjunct2)
  have h2: "?nq \<in> set [?nq]" by simp
  have h3: "(''slug ='', VStr ''hello'') \<in> set (filters ?nq)" by simp
  from bspec [OF bspec [OF g2 h2] h3]
  have g3: "(\<exists>col op. (col, op, VStr ''hello'') \<in> set ?fl \<and> ''slug ='' = col @ '' '' @ op)
      \<or> (\<exists>l f value vs. l \<in> set (leaves (where_tree slug_hello))
             \<and> parse_child post_model l = Inr (f, ''in'', value)
             \<and> py_iter value = Inr vs \<and> VStr ''hello'' \<in> set vs
             \<and> ''slug ='' = (if primary_key f then ''__key__'' else column f) @ '' ='')"
    unfolding prod.case .
  show ?thesis using h1 g1 g3 by (intro conjI)
qed

subsection \<open>The expansion of \<^verbatim>\<open>in\<close>\<close>

lemma expand_values_length:
  "expand_values m f ng query vs acc c = Inr (acc', c') \<Longrightarrow> length acc' = length acc + length vs"
proof (induction vs arbitrary: acc c)
  case Nil
  then show ?case by simp
next
  case (Cons x vs)
  obtain a c1 where n: "Query_new (db_table m) None c = (a, c1)"
    by (cases "Query_new (db_table m) None c")
  obtain r c3 where "expand_values m f ng query vs (acc @ [a]) c3 = Inr (acc', c')"
    using Cons.prems n by (auto split: sum.splits)
  from Cons.IH [OF this] show ?case by simp
qed

lemma expand_queries_length:
  "expand_queries m f ng value qs acc c = Inr (acc', c') \<Longrightarrow> py_iter value = Inr vs
     \<Longrightarrow> length acc' = length acc + length qs * length vs"
proof (induction qs arbitrary: acc c)
  case Nil
  then show ?case by simp
next
  case (Cons q qs)
  obtain acc1 c1 where ev: "expand_values m f ng q vs acc c = Inr (acc1, c1)"
    and rest: "expand_queries m f ng value qs acc1 c1 = Inr (acc', c')"
    using Cons.prems by (auto split: sum.splits)
  from Cons.IH [OF rest Cons.prems(2)] expand_values_length [OF ev]
  show ?case by simp
qed

lemma update_projection_state_length:
  "update_projection_state f lt c = Inr c1 \<Longrightarrow> length (queries c1) = length (queries c)"
  using rebuilt_props(3) by (auto elim!: update_projection_state_alt)

lemma apply_filter_count:
  assumes ap: "apply_filter m f lt ng v None c = Inr (r, c')"
  shows "length (queries c') =
           length (queries c) * (if lt = ''in'' then (case py_iter v of Inl e \<Rightarrow> 1 | Inr vs \<Rightarrow> length vs) else 1)"
proof (cases "lt = ''in''")
  case True
  from ap obtain c1 nq c2 where
    up: "update_projection_state f ''in'' c = Inr c1"
    and ex: "expand_queries m f ng v (queries c1) [] c1 = Inr (nq, c2)"
    and c': "c' = c2\<lparr>queries := nq\<rparr>"
    unfolding True apply_filter_in by (auto split: sum.splits option.splits)
  have ne: "queries c1 \<noteq> []"
    using up update_projection_state_length [OF up]
    by (auto simp: update_projection_state_def query_get_def split: list.splits)
  then obtain vs where it: "py_iter v = Inr vs"
    using ex by (cases "queries c1"; cases "py_iter v") auto
  from expand_queries_length [OF ex it] update_projection_state_length [OF up]
  show ?thesis by (simp add: True c' it)
next
  case False
  from ap obtain t op c1 where
    up: "update_projection_state f lt c = Inr c1"
    and si: "query_setitem t (colname f @ '' '' @ op) v c1 = Inr c'"
    unfolding apply_filter_not_in [OF False]
    by (auto split: sum.splits option.splits)
  show ?thesis using update_projection_state_length [OF up] query_setitem_props(2) [OF si] False
    by simp
qed

lemma fanout_append: "fanout m (xs @ ys) = fanout m xs * fanout m ys"
  by (simp add: fanout_def)

lemma apply_tree_count:
  shows "apply_filters m w af ng c = Inr c'
           \<Longrightarrow> length (queries c') = length (queries c) * fanout m (leaves w)"
    and "apply_children m cs af ng c = Inr c'
           \<Longrightarrow> length (queries c') = length (queries c) * fanout m (leaves_children cs)"
proof (induction m w af ng c and m cs af ng c arbitrary: c' and c'
       rule: apply_filters_apply_children.induct)
  case (1 m conn neg cs all_filters_arg negated_arg c)
  let ?ng = "if neg then py_not c negated_arg else negated_arg"
  have run: "apply_children m cs all_filters_arg ?ng c = Inr c'"
    using "1.prems"(1) by (simp add: Let_def split: if_splits)
  have ok: "\<not> (\<not> truthy c ?ng \<and> conn \<noteq> AND)"
    using "1.prems"(1) by (auto simp: Let_def split: if_splits)
  show ?case using "1.IH" [OF refl ok run] by simp
next
  case (2 m all_filters_arg negated_arg c)
  then show ?case by (simp add: fanout_def)
next
  case (3 m w rest all_filters_arg negated_arg c)
  obtain c1 where a: "apply_filters m w negated_arg all_filters_arg c = Inr c1"
    and r: "apply_children m rest all_filters_arg negated_arg c1 = Inr c'"
    using "3.prems"(1) by (auto split: sum.splits)
  show ?case using "3.IH"(1) [OF a] "3.IH"(2) [OF a r] by (simp add: fanout_append)
next
  case (4 m l rest all_filters_arg negated_arg c)
  obtain f lt v where pc: "parse_child m l = Inr (f, lt, v)"
    using "4.prems"(1) by (auto split: sum.splits)
  obtain r c1 where ap: "apply_filter m f lt negated_arg v None c = Inr (r, c1)"
    using "4.prems"(1) pc by (auto split: sum.splits)
  have w: "length (queries c1) = length (queries c) * leaf_width m l"
    using apply_filter_count [OF ap] by (simp add: leaf_width_def pc)
  have fo: "fanout m (l # leaves_children rest) = leaf_width m l * fanout m (leaves_children rest)"
    by (simp add: fanout_def)
  show ?case
  proof (cases r)
    case None
    then have run: "apply_children m rest all_filters_arg negated_arg c1 = Inr c'"
      using "4.prems"(1) pc ap by simp
    show ?thesis
      using "4.IH"(1) [OF pc refl refl ap [unfolded None] refl refl run] w by (simp add: fo)
  next
    case (Some t)
    then have dl: "all_filters_arg = DList"
      and run: "apply_children m rest all_filters_arg negated_arg (c1\<lparr>all_filters := all_filters c1 @ [t]\<rparr>) = Inr c'"
      using "4.prems"(1) pc ap by (auto split: dyn.splits)
    show ?thesis
      using "4.IH"(2) [OF pc refl refl ap [unfolded Some] refl refl dl run] w by (simp add: fo)
  qed
qed

text \<open>
  What holds of the expansion for every model and every tree accepted on a fresh cursor: the
  number of emitted native queries is the product of the widths of the \<^verbatim>\<open>in\<close> leaves;
  when it is more than one, the cursor holds a single multi-query that binds them, and
  otherwise the pending queries are left as they are.
\<close>

lemma in_expansion_count_and_envelope:
  assumes ex: "execute_appengine_query m q Cursor_init = Inr c'"
  shows "length (emitted_queries c') = fanout m (leaves (where_tree q))"
    and "1 < fanout m (leaves (where_tree q)) \<Longrightarrow>
           \<exists>mq bs. queries c' = [mq] \<and> bound_queries (heap c' ! mq) = Some bs
                  \<and> length bs = fanout m (leaves (where_tree q))"
    and "fanout m (leaves (where_tree q)) \<le> 1 \<Longrightarrow>
           length (queries c') = fanout m (leaves (where_tree q))
           \<and> (\<forall>a \<in> set (queries c'). bound_queries (heap c' ! a) = None)"
proof -
  from ex obtain c4 c5 c6 P where
    q4: "queries c4 = [0]"
    and ap: "apply_filters m (where_tree q) DList (DBool False) c4 = Inr c5"
    and w: "wrap_queries c5 = Inr c6"
    and c': "c' = c6\<lparr>last_query_model := Some m, query_done := False\<rparr>"
    and v: "\<forall>a \<in> set (queries c5). a < length (heap c5)"
    and b: "\<forall>a < length (heap c5). bound_queries (heap c5 ! a) = None"
    by (rule execute_obtain)
  have n: "length (queries c5) = fanout m (leaves (where_tree q))"
    using apply_tree_count(1) [OF ap] by (simp add: q4)
  show "length (emitted_queries c') = fanout m (leaves (where_tree q))"
    by (simp add: c' emitted_after_wrap [OF v b w] n)
  show "\<exists>mq bs. queries c' = [mq] \<and> bound_queries (heap c' ! mq) = Some bs
                  \<and> length bs = fanout m (leaves (where_tree q))"
    if "1 < fanout m (leaves (where_tree q))"
    using that n wrap_queries_cases [OF w] by (auto simp: c')
  show "length (queries c') = fanout m (leaves (where_tree q))
           \<and> (\<forall>a \<in> set (queries c'). bound_queries (heap c' ! a) = None)"
    if "fanout m (leaves (where_tree q)) \<le> 1"
    using that n v b wrap_queries_cases [OF w] by (auto simp: c')
qed

text \<open>
  The second end-to-end scenario of the specification, \<^verbatim>\<open>id__in=[1, 2, 3]\<close>, is not
  accepted: the filter \<^verbatim>\<open>__key__ = 1\<close> has an integer where the datastore wants a key.
\<close>

lemma key_in_rejected:
  "lower post_model id_in_123 = Inl BadFilterError"
  by code_simp

text \<open>
  C2 holds for the number of native queries and for the envelope (lemma
  \<open>in_expansion_count_and_envelope\<close>), and fails for the filters. For \<^verbatim>\<open>slug__in=['a', 'b', 'c']\<close> on a query without other
  filters three native queries are emitted, but the first has no filter at all: the clone
  made for the value \<^verbatim>\<open>a\<close> is an empty query, which is false in \<^verbatim>\<open>query_to_update or
  self.query\<close>, so the filter \<^verbatim>\<open>slug = a\<close> is written into the pending query that is
  being cloned, not into the clone. The clones for \<^verbatim>\<open>b\<close> and \<^verbatim>\<open>c\<close> copy that filter
  and overwrite it with their own.
\<close>

theorem in_expansion_first_clone_unfiltered:
  "lower post_model slug_in_abc =
     Inr ([\<lparr>kind = ''post'', filters = [], projection = None, bound_queries = None\<rparr>,
           \<lparr>kind = ''post'', filters = [(''slug ='', VStr ''b'')], projection = None,
              bound_queries = None\<rparr>,
           \<lparr>kind = ''post'', filters = [(''slug ='', VStr ''c'')], projection = None,
              bound_queries = None\<rparr>],
          [])"
  by code_simp

subsection \<open>The projection guard\<close>

text \<open>
  C3 fails on the code. What holds is its consequence (lemma \<open>emitted_projection_free\<close>
  above): after the lowering of a tree on a fresh cursor no emitted native query has in its
  projection the column of a leaf whose field or lookup forbids it. What fails is the
  order of the two steps. \<^verbatim>\<open>_apply_filter\<close> reads \<^verbatim>\<open>self.query\<close> into
  \<^verbatim>\<open>query_to_update\<close> first; \<^verbatim>\<open>_update_projection_state\<close> then replaces every pending
  query by a new object without projection; and the filter is written into
  \<^verbatim>\<open>query_to_update\<close>, the object that has just been replaced. In the third end-to-end
  scenario of the specification (projection \<^verbatim>\<open>[title, body]\<close>, \<^verbatim>\<open>title = 'x'\<close>) the
  one emitted query has no projection and no filter; the filter \<^verbatim>\<open>title = x\<close> is in
  object 0 of the store, which still has its projection and is not pending any more (the
  pending query is object 1); the flat filter list records the triple all the same.
\<close>

theorem projection_invalidated_filter_lost:
  "lower doc_model title_x_projected =
     Inr ([\<lparr>kind = ''doc'', filters = [], projection = None, bound_queries = None\<rparr>],
          [(''title'', ''='', VStr ''x'')])
   \<and> map_sum id (\<lambda>c. (queries c, heap c))
        (execute_appengine_query doc_model title_x_projected Cursor_init) =
     Inr ([1],
          [\<lparr>kind = ''doc'', filters = [(''title ='', VStr ''x'')],
             projection = Some [''title'', ''body''], bound_queries = None\<rparr>,
           \<lparr>kind = ''doc'', filters = [], projection = None, bound_queries = None\<rparr>])"
  by code_simp

subsection \<open>Lookups without an operator\<close>

text \<open>
  C5 fails on the code. \<^verbatim>\<open>OPERATORS_MAP\<close> announces \<^verbatim>\<open>isnull\<close>,
  \<^verbatim>\<open>startswith\<close>, \<^verbatim>\<open>range\<close> and \<^verbatim>\<open>year\<close> as supported with special code, but
  only \<^verbatim>\<open>in\<close> has such code: for the other four \<^verbatim>\<open>_apply_filter\<close> reaches
  \<^verbatim>\<open>assert(op is not None)\<close> with \<^verbatim>\<open>op\<close> being \<^verbatim>\<open>None\<close>, whatever the model, the
  field, the value and the cursor (with a pending query) are.
\<close>

theorem special_lookups_fail:
  assumes "lt \<in> {''isnull'', ''startswith'', ''range'', ''year''}" "queries c \<noteq> []"
  shows "apply_filter m f lt ng v None c = Inl AssertionError"
proof -
  obtain q rest where q: "queries c = q # rest" using assms(2) by (cases "queries c") auto
  have op: "map_of OPERATORS_MAP lt = Some None"
    using assms(1) by (auto simp: OPERATORS_MAP_def)
  have ne: "lt \<noteq> ''in''" using assms(1) by auto
  obtain c1 where "update_projection_state f lt c = Inr c1"
    using update_projection_state_total [OF assms(2)] by blast
  then show ?thesis using q op by (simp add: apply_filter_not_in [OF ne] query_get_def)
qed

theorem special_lookups_fail_witness:
  "''isnull'' \<in> {''isnull'', ''startswith'', ''range'', ''year''}
   \<and> queries single_pending \<noteq> []
   \<and> apply_filter post_model slug_field ''isnull'' (DBool False) (VBool True) None single_pending
        = Inl AssertionError"
proof -
  have h1: "''isnull'' \<in> {''isnull'', ''startswith'', ''range'', ''year''}" by simp
  have h2: "queries single_pending \<noteq> []" by (simp add: single_pending_def Cursor_init_def)
  show ?thesis using special_lookups_fail [OF h1 h2] h1 h2 by simp
qed

lemma slug_isnull_fails:
  "lower post_model slug_isnull = Inl AssertionError"
  by code_simp

subsection \<open>The size of a fetch\<close>

text \<open>
  C6, as stated, fails in multi-query mode: the multi-query is run without a limit and all
  its results are returned. With three posts in the datastore,
  \<^verbatim>\<open>fetchmany(1)\<close> after \<^verbatim>\<open>slug__in=['a', 'b', 'c']\<close> returns three tuples.
\<close>

theorem fetchmany_size_counterexample:
  "query_then_fetch three_posts_env post_model slug_in_abc 1
     = Inr [[VInt 1, VStr ''a''], [VInt 2, VStr ''b''], [VInt 3, VStr ''c'']]"
  by code_simp

text \<open>
  C6, amended: on the first fetch of a cursor that is not done, with a datastore that
  returns at most \<open>size\<close> entities for a run limited to \<open>size\<close>: in single-query
  mode \<^verbatim>\<open>fetchmany(size)\<close> returns at most \<open>max size 1\<close> tuples (those of the limited
  run, or exactly one on a cache hit); in multi-query mode it returns one tuple for every
  entity of the unlimited run, whatever \<open>size\<close> is.
\<close>

theorem fetchmany_first_fetch_size:
  assumes "fetchmany env n c = Inr (rows, c')"
    and "\<not> query_done c" and "results c = None" and "queries c = q # rest"
    and "\<forall>qs start. int (length (ds_run env qs (Some n) start)) \<le> n"
  shows "(bound_queries (heap c ! q) = None \<longrightarrow> int (length rows) \<le> max n 1)
       \<and> (bound_queries (heap c ! q) \<noteq> None \<longrightarrow>
            rows = map (row_of (queried_fields c)) (ds_run env (native_queries c q) None None))"
proof -
  let ?c0 = "log_error ''NOT FULLY IMPLEMENTED: Called fetchmany'' c"
  have c0: "\<not> query_done ?c0" "results ?c0 = None" "queries ?c0 = q # rest"
    "heap ?c0 = heap c" "queried_fields ?c0 = queried_fields c" "start_cursor ?c0 = start_cursor c"
    using assms(2-4) by (simp_all add: log_error_def)
  have nq: "native_queries ?c0 q = native_queries c q"
    by (simp add: native_queries_def log_error_def split: option.splits)
  have f: "fetchmany env n c =
      (case start_fetch env n ?c0 of
         Inl e \<Rightarrow> Inl e
       | Inr c1 \<Rightarrow>
           (case results c1 of
              None \<Rightarrow> Inl TypeError
            | Some rs \<Rightarrow> Inr (map (row_of (queried_fields c1)) (fst (iterate rs)),
                              c1\<lparr>results := Some (snd (iterate rs))\<rparr>)))"
    using c0(1,2) by (simp add: fetchmany_def Let_def split_beta split: sum.splits option.splits)
  obtain c1 where sf: "start_fetch env n ?c0 = Inr c1"
    using assms(1) unfolding f by (cases "start_fetch env n ?c0") simp_all
  obtain rs where rs: "results c1 = Some rs"
    using assms(1) unfolding f sf by (cases "results c1") simp_all
  have rows: "rows = map (row_of (queried_fields c1)) (fst (iterate rs))"
    and c': "c' = c1\<lparr>results := Some (snd (iterate rs))\<rparr>"
    using assms(1) unfolding f sf by (simp_all add: rs)
  show ?thesis
  proof (cases "bound_queries (heap c ! q) = None")
    case True
    from start_fetch_single [OF sf c0(3)] True c0(4)
    have alt: "results c1 = Some (Iterator (ds_run env (native_queries ?c0 q) (Some n) (start_cursor ?c0)))
          \<or> (\<exists>e. results c1 = Some (PyList [e]) \<and> query_done c1)" by simp
    have size: "int (length rows) \<le> max n 1"
      using alt
    proof
      assume "results c1 = Some (Iterator (ds_run env (native_queries ?c0 q) (Some n) (start_cursor ?c0)))"
      with rs rows have "length rows = length (ds_run env (native_queries ?c0 q) (Some n) (start_cursor ?c0))"
        by (cases rs) simp_all
      moreover have "int (length (ds_run env (native_queries ?c0 q) (Some n) (start_cursor ?c0))) \<le> n"
        using assms(5) by blast
      ultimately show ?thesis by simp
    next
      assume "\<exists>e. results c1 = Some (PyList [e]) \<and> query_done c1"
      with rs rows have "length rows = 1" by auto
      then show ?thesis by simp
    qed
    show ?thesis using size True by simp
  next
    case False
    from start_fetch_multi [OF sf c0(3)] False c0(4)
    have m: "queried_fields c1 = queried_fields ?c0" "query_done c1"
      "results c1 = Some (Iterator (ds_run env (native_queries ?c0 q) None None))" by simp_all
    with rs rows have "rows = map (row_of (queried_fields c)) (ds_run env (native_queries c q) None None)"
      by (cases rs) (simp_all add: nq c0)
    then show ?thesis using False by blast
  qed
qed

theorem fetchmany_first_fetch_size_witness:
  "fetchmany three_posts_env 2 single_pending
     = Inr ([[VInt 1, VStr ''a''], [VInt 2, VStr ''b'']],
            single_pending\<lparr>results := Some (Iterator []), start_cursor := Some ''next'',
               trace := [LogError ''NOT FULLY IMPLEMENTED: Called fetchmany'',
                         DatastoreRun [\<lparr>kind = ''post'', filters = [], projection = None,
                                         bound_queries = None\<rparr>] (Some 2) None]\<rparr>)
   \<and> \<not> query_done single_pending \<and> results single_pending = None
   \<and> queries single_pending = [0]
   \<and> (\<forall>qs start. int (length (ds_run three_posts_env qs (Some 2) start)) \<le> 2)
   \<and> bound_queries (heap single_pending ! 0) = None
   \<and> int (length [[VInt 1, VStr ''a''], [VInt 2, VStr ''b'']]) \<le> max 2 1"
proof -
  let ?c' = "single_pending\<lparr>results := Some (Iterator []), start_cursor := Some ''next'',
               trace := [LogError ''NOT FULLY IMPLEMENTED: Called fetchmany'',
                         DatastoreRun [\<lparr>kind = ''post'', filters = [], projection = None,
                                         bound_queries = None\<rparr>] (Some 2) None]\<rparr>"
  have h1: "fetchmany three_posts_env 2 single_pending
     = Inr ([[VInt 1, VStr ''a''], [VInt 2, VStr ''b'']], ?c')"
    by code_simp
  have h2: "\<not> query_done single_pending" and h3: "results single_pending = None"
    and h4: "queries single_pending = 0 # []"
    and b: "bound_queries (heap single_pending ! 0) = None"
    by (simp_all add: single_pending_def Cursor_init_def)
  have h5: "\<forall>qs start. int (length (ds_run three_posts_env qs (Some 2) start)) \<le> 2"
    by (simp add: three_posts_env_def three_posts_def)
  show ?thesis
    using fetchmany_first_fetch_size [OF h1 h2 h3 h4 h5] h1 h2 h3 h4 h5 b by simp
qed

subsection \<open>A cursor that is done\<close>

text \<open>
  C9: for every cursor whose \<^verbatim>\<open>query_done\<close> flag is set, \<^verbatim>\<open>fetchmany(size)\<close> returns
  the empty list; the only thing it does is to write its log line (there is no datastore
  round-trip and no cache probe), and every attribute of the cursor, and the object store,
  stay as they are. The flag is then still set, so the same holds for every later call.
\<close>

theorem fetchmany_done:
  assumes "query_done c"
  shows "fetchmany env n c =
           Inr ([], c\<lparr>trace := trace c @ [LogError ''NOT FULLY IMPLEMENTED: Called fetchmany'']\<rparr>)
       \<and> query_done (c\<lparr>trace := trace c @ [LogError ''NOT FULLY IMPLEMENTED: Called fetchmany'']\<rparr>)"
  using assms by (simp add: fetchmany_def log_error_def)

theorem fetchmany_done_witness:
  "query_done Cursor_init
   \<and> fetchmany three_posts_env 5 Cursor_init =
       Inr ([], Cursor_init\<lparr>trace := [LogError ''NOT FULLY IMPLEMENTED: Called fetchmany'']\<rparr>)"
proof -
  have h: "query_done Cursor_init" by (simp add: Cursor_init_def)
  have "trace Cursor_init = []" by (simp add: Cursor_init_def)
  then show ?thesis using fetchmany_done [OF h, of three_posts_env 5] h by simp
qed

subsection \<open>An empty \<^verbatim>\<open>in\<close>\<close>

text \<open>
  C10: for a tree whose only leaf is an \<^verbatim>\<open>in\<close> leaf with an empty list of values, on a
  fresh cursor, the lowering succeeds and leaves no pending query at all, and the first
  \<^verbatim>\<open>fetchmany\<close> after it raises \<^verbatim>\<open>DatabaseError\<close> (\<^verbatim>\<open>Database.Error\<close>) instead of
  returning an empty list.
\<close>

theorem empty_in_fetch_raises:
  assumes pc: "parse_child m l = Inr (f, ''in'', VList [])"
  shows "\<exists>c. execute_appengine_query m \<lparr>select_columns = sel, where_tree = Node AND False [Leaf l]\<rparr> Cursor_init = Inr c
           \<and> queries c = [] \<and> fetchmany env n c = Inl DatabaseError"
proof -
  from empty_in_lowering [OF pc, of sel] obtain c where
    c: "execute_appengine_query m \<lparr>select_columns = sel, where_tree = Node AND False [Leaf l]\<rparr> Cursor_init = Inr c"
    "queries c = []" "results c = None" "\<not> query_done c" by blast
  have "fetchmany env n c = Inl DatabaseError"
    using c(2-4) by (simp add: fetchmany_def log_error_def start_fetch_def)
  then show ?thesis using c(1,2) by blast
qed

theorem empty_in_fetch_raises_witness:
  "parse_child post_model (leaf_on post_model slug_field ''in'' (VList []))
     = Inr (slug_field, ''in'', VList [])
   \<and> (\<exists>c. execute_appengine_query post_model slug_in_nothing Cursor_init = Inr c
          \<and> queries c = [] \<and> fetchmany three_posts_env 10 c = Inl DatabaseError)"
proof -
  have h: "parse_child post_model (leaf_on post_model slug_field ''in'' (VList []))
     = Inr (slug_field, ''in'', VList [])"
    by code_simp
  show ?thesis
    using empty_in_fetch_raises [OF h, of "[]" three_posts_env 10] h
    by (simp add: slug_in_nothing_def)
qed

end
